theory Spec2Isabelle
  imports Complex_Main "HOL-Library.Sublist"
begin

section \<open>JavaScript values used by the two pages\<close>

text \<open>
  Strings are lists of code units; the model covers code units below 256. The white space
  that \<^verbatim>\<open>String.prototype.trim\<close> removes is, in that range, TAB, LF, VT, FF, CR, SPACE
  and NBSP. A string is truthy exactly when it is not empty.
\<close>

definition is_white_space :: "char \<Rightarrow> bool" where
  "is_white_space c =
     (c \<in> set [CHR 0x09, CHR 0x0A, CHR 0x0B, CHR 0x0C, CHR 0x0D, CHR 0x20, CHR 0xA0])"

definition trim :: "string \<Rightarrow> string" where
  "trim s = rev (dropWhile is_white_space (rev (dropWhile is_white_space s)))"

definition truthy :: "string \<Rightarrow> bool" where
  "truthy s = (s \<noteq> [])"

text \<open>\<^verbatim>\<open>sessionId: string | null\<close> and \<^verbatim>\<open>summary?: string | null\<close>: null and the empty
  string are both falsy.\<close>

definition truthy_opt :: "string option \<Rightarrow> bool" where
  "truthy_opt v = (case v of None \<Rightarrow> False | Some s \<Rightarrow> truthy s)"

text \<open>\<^verbatim>\<open>String.prototype.toLowerCase\<close> on code units below 256: the letters A to Z and the
  Latin-1 capitals (192 to 222, but not the multiplication sign 215) move up by 32.\<close>

definition lower_unit :: "char \<Rightarrow> char" where
  "lower_unit c =
     (let n = (of_char c :: nat)
      in if (65 \<le> n \<and> n \<le> 90) \<or> (192 \<le> n \<and> n \<le> 222 \<and> n \<noteq> 215)
         then char_of (n + 32) else c)"

definition toLowerCase :: "string \<Rightarrow> string" where
  "toLowerCase s = map lower_unit s"

text \<open>\<^verbatim>\<open>s.includes(t)\<close>: \<open>t\<close> occurs in \<open>s\<close> as a contiguous piece.\<close>

definition includes_str :: "string \<Rightarrow> string \<Rightarrow> bool" where
  "includes_str s t = sublist t s"

text \<open>\<^verbatim>\<open>s.substring(a, b)\<close>: both indices are clamped to the length and swapped when
  they come in the wrong order.\<close>

definition substring :: "string \<Rightarrow> nat \<Rightarrow> nat \<Rightarrow> string" where
  "substring s a b =
     (let a' = min a (length s); b' = min b (length s)
      in take (max a' b' - min a' b') (drop (min a' b') s))"

text \<open>The decimal digits of a number, as a template literal prints an integer.\<close>

definition digit_char :: "nat \<Rightarrow> char" where
  "digit_char d = ''0123456789'' ! d"

fun string_of_nat :: "nat \<Rightarrow> string" where
  "string_of_nat n =
     (if n < 10 then [digit_char n]
      else string_of_nat (n div 10) @ [digit_char (n mod 10)])"

declare string_of_nat.simps [simp del]

text \<open>
  Numbers are exact: a rational, or one of the three values a division by zero gives. The
  rounding of doubles is outside the model. \<^verbatim>\<open>Math.round\<close> rounds to the nearest integer,
  a half upwards.
\<close>

datatype js_number = Num rat | NaN | Infinity | NegInfinity

definition js_divide :: "int \<Rightarrow> int \<Rightarrow> js_number" where
  "js_divide a b =
     (if b = 0 then (if a = 0 then NaN else if 0 < a then Infinity else NegInfinity)
      else Num (of_int a / of_int b))"

definition Math_round :: "js_number \<Rightarrow> js_number" where
  "Math_round x = (case x of Num q \<Rightarrow> Num (of_int \<lfloor>q + 1 / 2\<rfloor>) | _ \<Rightarrow> x)"

text \<open>A thrown value is an \<^verbatim>\<open>Error\<close> with its message, or anything else.\<close>

datatype thrown = Error string | NonError

text \<open>\<^verbatim>\<open>await response.json()\<close> throws or gives the parsed body, read at the type the
  source gives it.\<close>

datatype 'a json_result = JsonThrows thrown | JsonValue 'a

text \<open>
  What \<^verbatim>\<open>await fetch(...)\<close> gives: it throws, or it resolves to a response whose
  \<^verbatim>\<open>ok\<close> flag is false (with its \<^verbatim>\<open>status\<close> and, behind \<^verbatim>\<open>json()\<close>, the
  \<^verbatim>\<open>detail\<close> of the error body), or to one whose \<^verbatim>\<open>ok\<close> flag is true (with the
  body behind \<^verbatim>\<open>json()\<close>).
\<close>

datatype 'a fetch_result =
    FetchThrows thrown
  | NotOk nat "string option json_result"
  | Ok "'a json_result"

text \<open>A call of \<^verbatim>\<open>fetch\<close>: the method, the URL, the headers and the object that is sent
  as the JSON body (its keys with their values).\<close>

datatype http_method = GET | POST

record http_call =
  req_method :: http_method
  url :: string
  headers :: "(string \<times> string) list"
  body :: "(string \<times> string) list option"

definition API_BASE_URL :: string where
  "API_BASE_URL = ''http://localhost:8000''"

section \<open>MarkdownText: the bold parser \<^verbatim>\<open>renderText\<close>\<close>

text \<open>
  \<^verbatim>\<open>renderText\<close> is the same function in both pages. It walks over the matches of
  \<^verbatim>\<open>/\*\*([^*]+)\*\*|\*([^*]+)\*/g\<close> and collects the parts of the line: a piece of
  plain text, or a \<^verbatim>\<open>strong\<close> element with its key and its text.
\<close>

datatype react_node = Str string | Strong nat string

text \<open>What \<^verbatim>\<open>boldRegex.exec\<close> returns: \<^verbatim>\<open>match.index\<close>, \<^verbatim>\<open>match[0]\<close>,
  \<^verbatim>\<open>match[1]\<close> and \<^verbatim>\<open>match[2]\<close> (a group that took no part is undefined).\<close>

record regex_match =
  index :: nat
  whole :: string
  group1 :: "string option"
  group2 :: "string option"

definition not_star :: "char \<Rightarrow> bool" where
  "not_star c = (c \<noteq> CHR ''*'')"

text \<open>
  The two alternatives, tried at the head of \<open>s\<close>. \<^verbatim>\<open>[^*]+\<close> is greedy and the next
  thing the pattern wants is a star, so the group can only end where the run of characters
  other than stars ends: a shorter group would leave a character other than a star where
  the pattern wants the star. The group holds at least one character.
\<close>

definition match_double :: "string \<Rightarrow> string option" where
  "match_double s =
     (case s of
        a # b # rest \<Rightarrow>
          (let g = takeWhile not_star rest; after = dropWhile not_star rest in
           if a = CHR ''*'' \<and> b = CHR ''*'' \<and> g \<noteq> [] \<and> take 2 after = ''**''
           then Some g else None)
      | _ \<Rightarrow> None)"

definition match_single :: "string \<Rightarrow> string option" where
  "match_single s =
     (case s of
        a # rest \<Rightarrow>
          (let g = takeWhile not_star rest; after = dropWhile not_star rest in
           if a = CHR ''*'' \<and> g \<noteq> [] \<and> take 1 after = ''*''
           then Some g else None)
      | [] \<Rightarrow> None)"

text \<open>The leftmost match: at each position the first alternative is tried before the
  second, and the search moves one character to the right when both fail.\<close>

fun boldRegex_scan :: "nat \<Rightarrow> string \<Rightarrow> regex_match option" where
  "boldRegex_scan i s =
     (case match_double s of
        Some g \<Rightarrow> Some \<lparr>index = i, whole = ''**'' @ g @ ''**'', group1 = Some g, group2 = None\<rparr>
      | None \<Rightarrow>
          (case match_single s of
             Some g \<Rightarrow> Some \<lparr>index = i, whole = ''*'' @ g @ ''*'', group1 = None, group2 = Some g\<rparr>
           | None \<Rightarrow> (case s of [] \<Rightarrow> None | c # t \<Rightarrow> boldRegex_scan (Suc i) t)))"

declare boldRegex_scan.simps [simp del]

text \<open>\<^verbatim>\<open>boldRegex.exec(input)\<close> with the regex's \<^verbatim>\<open>lastIndex\<close>: after a match it is
  the end of the match, which is what the loop stores in its own \<^verbatim>\<open>lastIndex\<close>, so one
  number stands for both.\<close>

definition boldRegex_exec :: "string \<Rightarrow> nat \<Rightarrow> regex_match option" where
  "boldRegex_exec input lastIndex =
     (if lastIndex > length input then None
      else boldRegex_scan lastIndex (drop lastIndex input))"

text \<open>\<^verbatim>\<open>match[1] || match[2]\<close>; an undefined child renders no text.\<close>

definition boldText :: "regex_match \<Rightarrow> string" where
  "boldText m =
     (case group1 m of
        Some g \<Rightarrow> if truthy g then g else (case group2 m of Some h \<Rightarrow> h | None \<Rightarrow> [])
      | None \<Rightarrow> (case group2 m of Some h \<Rightarrow> h | None \<Rightarrow> []))"

text \<open>The shape of a match, which bounds the loop of \<^verbatim>\<open>renderText\<close>.\<close>

lemma scan_shape:
  "boldRegex_scan i s = Some m \<Longrightarrow>
   \<exists>pre k g rest. s = pre @ replicate k (CHR ''*'') @ g @ replicate k (CHR ''*'') @ rest
      \<and> index m = i + length pre \<and> whole m = replicate k (CHR ''*'') @ g @ replicate k (CHR ''*'')
      \<and> boldText m = g \<and> g \<noteq> [] \<and> (k = 1 \<or> k = 2) \<and> CHR ''*'' \<notin> set g"
proof (induction i s rule: boldRegex_scan.induct)
  case (1 i s)
  show ?case
  proof (cases "match_double s")
    case (Some g)
    then obtain rest where s: "s = CHR ''*'' # CHR ''*'' # rest"
      and g: "g = takeWhile not_star rest" "g \<noteq> []"
      and a: "take 2 (dropWhile not_star rest) = ''**''"
      by (auto simp: match_double_def Let_def split: list.splits if_splits)
    from a obtain rest' where r: "dropWhile not_star rest = ''**'' @ rest'"
      by (metis append_take_drop_id)
    have "rest = g @ ''**'' @ rest'"
      using g r takeWhile_dropWhile_id [of not_star rest] by simp
    with s have s': "s = [] @ replicate 2 (CHR ''*'') @ g @ replicate 2 (CHR ''*'') @ rest'"
      by (simp add: numeral_2_eq_2)
    have m: "m = \<lparr>index = i, whole = ''**'' @ g @ ''**'', group1 = Some g, group2 = None\<rparr>"
      using "1.prems" Some by (simp add: boldRegex_scan.simps [of i s])
    have ns: "CHR ''*'' \<notin> set g"
      using g(1) by (auto simp: not_star_def dest: set_takeWhileD)
    show ?thesis
      apply (rule exI [of _ "[]"], rule exI [of _ 2], rule exI [of _ g], rule exI [of _ rest'])
      using s' m g(2) ns by (simp add: boldText_def truthy_def numeral_2_eq_2)
  next
    case None
    note nd = None
    show ?thesis
    proof (cases "match_single s")
      case (Some g)
      then obtain rest where s: "s = CHR ''*'' # rest"
        and g: "g = takeWhile not_star rest" "g \<noteq> []"
        and a: "take 1 (dropWhile not_star rest) = ''*''"
        by (auto simp: match_single_def Let_def split: list.splits if_splits)
      from a obtain rest' where r: "dropWhile not_star rest = ''*'' @ rest'"
        by (metis append_take_drop_id)
      have "rest = g @ ''*'' @ rest'"
        using g r takeWhile_dropWhile_id [of not_star rest] by simp
      with s have s': "s = [] @ replicate 1 (CHR ''*'') @ g @ replicate 1 (CHR ''*'') @ rest'"
        by simp
      have m: "m = \<lparr>index = i, whole = ''*'' @ g @ ''*'', group1 = None, group2 = Some g\<rparr>"
        using "1.prems" Some nd by (simp add: boldRegex_scan.simps [of i s])
      have ns: "CHR ''*'' \<notin> set g"
        using g(1) by (auto simp: not_star_def dest: set_takeWhileD)
      show ?thesis
        apply (rule exI [of _ "[]"], rule exI [of _ 1], rule exI [of _ g], rule exI [of _ rest'])
        using s' m g(2) ns by (simp add: boldText_def truthy_def)
    next
      case None
      with nd "1.prems" obtain c t where s: "s = c # t" and rec: "boldRegex_scan (Suc i) t = Some m"
        by (auto simp: boldRegex_scan.simps [of i s] split: list.splits)
      from "1.IH" [OF nd None s rec]
      obtain pre k g rest where ih:
        "t = pre @ replicate k (CHR ''*'') @ g @ replicate k (CHR ''*'') @ rest"
        "index m = Suc i + length pre"
        "whole m = replicate k (CHR ''*'') @ g @ replicate k (CHR ''*'')"
        "boldText m = g" "g \<noteq> []" "k = 1 \<or> k = 2" "CHR ''*'' \<notin> set g"
        by blast
      show ?thesis
        apply (rule exI [of _ "c # pre"], rule exI [of _ k], rule exI [of _ g], rule exI [of _ rest])
        using s ih by simp
    qed
  qed
qed

lemma exec_shape:
  assumes "boldRegex_exec input li = Some m"
  shows "\<exists>pre k g rest. drop li input = pre @ replicate k (CHR ''*'') @ g @ replicate k (CHR ''*'') @ rest
      \<and> li \<le> length input
      \<and> index m = li + length pre \<and> whole m = replicate k (CHR ''*'') @ g @ replicate k (CHR ''*'')
      \<and> boldText m = g \<and> g \<noteq> [] \<and> (k = 1 \<or> k = 2) \<and> CHR ''*'' \<notin> set g"
proof -
  from assms have le: "li \<le> length input" and sc: "boldRegex_scan li (drop li input) = Some m"
    by (auto simp: boldRegex_exec_def split: if_splits)
  from scan_shape [OF sc] le show ?thesis by blast
qed

lemma exec_bounds:
  assumes "boldRegex_exec input li = Some m"
  shows "li \<le> index m" and "0 < length (whole m)"
    and "index m + length (whole m) \<le> length input"
proof -
  from exec_shape [OF assms] obtain pre k g rest where
    d: "drop li input = pre @ replicate k (CHR ''*'') @ g @ replicate k (CHR ''*'') @ rest"
    and le: "li \<le> length input"
    and i: "index m = li + length pre"
    and w: "whole m = replicate k (CHR ''*'') @ g @ replicate k (CHR ''*'')"
    and g: "g \<noteq> []"
    by blast
  show "li \<le> index m" using i by simp
  show "0 < length (whole m)" using w g by simp
  have "length (drop li input) = length pre + length (whole m) + length rest"
    using d w by simp
  then show "index m + length (whole m) \<le> length input"
    using i le by simp
qed

text \<open>The \<^verbatim>\<open>while\<close> loop: it returns the parts and \<^verbatim>\<open>lastIndex\<close>.\<close>

function renderText_loop :: "string \<Rightarrow> nat \<Rightarrow> react_node list \<Rightarrow> react_node list \<times> nat" where
  "renderText_loop input lastIndex parts =
     (case boldRegex_exec input lastIndex of
        None \<Rightarrow> (parts, lastIndex)
      | Some m \<Rightarrow>
          renderText_loop input (index m + length (whole m))
            ((if index m > lastIndex
              then parts @ [Str (substring input lastIndex (index m))] else parts)
             @ [Strong (index m) (boldText m)]))"
  by pat_completeness auto
termination
proof (relation "measure (\<lambda>(input, lastIndex, parts). length input - lastIndex)")
  show "wf (measure (\<lambda>(input, lastIndex, parts). length input - lastIndex))" by simp
next
  fix input :: string and lastIndex :: nat and parts :: "react_node list" and m
  assume "boldRegex_exec input lastIndex = Some m"
  from exec_bounds [OF this]
  show "((input, index m + length (whole m),
          (if lastIndex < index m
           then parts @ [Str (substring input lastIndex (index m))] else parts) @
          [Strong (index m) (boldText m)]),
         input, lastIndex, parts)
        \<in> measure (\<lambda>(input, lastIndex, parts). length input - lastIndex)"
    by (simp del: length_greater_0_conv)
qed

declare renderText_loop.simps [simp del]

text \<open>\<^verbatim>\<open>renderText\<close> returns the array of parts, or the input itself when the array is
  empty.\<close>

datatype rendered = Parts "react_node list" | Input string

definition renderText :: "string \<Rightarrow> rendered" where
  "renderText input =
     (case renderText_loop input 0 [] of
        (parts, lastIndex) \<Rightarrow>
          (let parts' = (if lastIndex < length input then parts @ [Str (drop lastIndex input)]
                         else parts)
           in if length parts' > 0 then Parts parts' else Input input))"

text \<open>The text a result shows: its parts one after the other.\<close>

fun node_text :: "react_node \<Rightarrow> string" where
  "node_text (Str s) = s"
| "node_text (Strong k s) = s"

definition rendered_text :: "rendered \<Rightarrow> string" where
  "rendered_text r = (case r of Parts ps \<Rightarrow> concat (map node_text ps) | Input s \<Rightarrow> s)"

definition parts_text :: "react_node list \<Rightarrow> string" where
  "parts_text ps = concat (map node_text ps)"

text \<open>The text the loop gives when it starts at \<open>li\<close> with no parts: the text of the
  parts it collects, and what is left of the line behind its last match.\<close>

definition rest_text :: "string \<Rightarrow> nat \<Rightarrow> string" where
  "rest_text input li =
     (case renderText_loop input li [] of (ps, li') \<Rightarrow> parts_text ps @ drop li' input)"

section \<open>The admin dashboard\<close>

text \<open>A row of the session listing, as the page receives it: \<^verbatim>\<open>status\<close> is the
  string of the JSON body, which the page compares with string literals.\<close>

record Conversation =
  session_id :: string
  status :: string
  created_at :: string
  updated_at :: string
  message_count :: int
  is_escalated :: bool
  summary :: "string option"

text \<open>The state of \<^verbatim>\<open>AdminDashboard\<close>: its \<^verbatim>\<open>useState\<close> cells and the list of the
  \<^verbatim>\<open>fetch\<close> calls issued so far. The detail of a session is only stored and shown, so
  its type \<open>'d\<close> is left open.\<close>

record 'd AdminDashboard =
  conversations :: "Conversation list"
  filteredConversations :: "Conversation list"
  selectedConversation :: "'d option"
  isLoading :: bool
  error :: "string option"
  searchTerm :: string
  statusFilter :: string
  showModal :: bool
  fetched :: "http_call list"

definition AdminDashboard_init :: "'d AdminDashboard" where
  "AdminDashboard_init =
     \<lparr>conversations = [], filteredConversations = [], selectedConversation = None,
      isLoading = False, error = None, searchTerm = [], statusFilter = ''all'',
      showModal = False, fetched = []\<rparr>"

text \<open>The body of the effect on \<^verbatim>\<open>[searchTerm, statusFilter, conversations]\<close>.\<close>

definition applyFilters :: "Conversation list \<Rightarrow> string \<Rightarrow> string \<Rightarrow> Conversation list" where
  "applyFilters convs flt srch =
     (let filtered = convs;
          filtered = (if flt \<noteq> ''all''
                      then filter (\<lambda>conv. status conv = flt) filtered else filtered);
          filtered = (if truthy srch
                      then filter (\<lambda>conv.
                             includes_str (toLowerCase (session_id conv)) (toLowerCase srch) \<or>
                             (case summary conv of
                                None \<Rightarrow> False
                              | Some s \<Rightarrow> truthy s \<and> includes_str (toLowerCase s) (toLowerCase srch)))
                           filtered
                      else filtered)
      in filtered)"

definition filterEffect :: "'d AdminDashboard \<Rightarrow> 'd AdminDashboard" where
  "filterEffect st =
     st\<lparr>filteredConversations := applyFilters (conversations st) (statusFilter st) (searchTerm st)\<rparr>"

text \<open>\<^verbatim>\<open>fetchConversations\<close>, completed with what the fetch gave. A new list is a new
  array, so the effect runs after it.\<close>

definition fetchConversations ::
  "Conversation list fetch_result \<Rightarrow> 'd AdminDashboard \<Rightarrow> 'd AdminDashboard"
where
  "fetchConversations res st =
     (let st1 = st\<lparr>isLoading := True, error := None,
                   fetched := fetched st @
                     [\<lparr>req_method = GET, url = API_BASE_URL @ ''/api/conversations'',
                       headers = [], body = None\<rparr>]\<rparr>;
          outcome =
            (case res of
               FetchThrows e \<Rightarrow> Inl e
             | NotOk code errorData \<Rightarrow>
                 Inl (Error (''Failed to fetch conversations: '' @ string_of_nat code))
             | Ok (JsonThrows e) \<Rightarrow> Inl e
             | Ok (JsonValue data) \<Rightarrow> Inr data)
      in case outcome of
           Inl err \<Rightarrow>
             st1\<lparr>error := Some (case err of Error m \<Rightarrow> m
                                           | NonError \<Rightarrow> ''Failed to load conversations''),
                 isLoading := False\<rparr>
         | Inr data \<Rightarrow>
             filterEffect (st1\<lparr>conversations := data, filteredConversations := data,
                                isLoading := False\<rparr>))"

text \<open>\<^verbatim>\<open>fetchConversationDetail(sessionId)\<close>, completed with what the fetch gave.\<close>

definition fetchConversationDetail ::
  "string \<Rightarrow> 'd fetch_result \<Rightarrow> 'd AdminDashboard \<Rightarrow> 'd AdminDashboard"
where
  "fetchConversationDetail sid res st =
     (let st1 = st\<lparr>isLoading := True, error := None,
                   fetched := fetched st @
                     [\<lparr>req_method = GET, url = API_BASE_URL @ ''/api/conversations/'' @ sid,
                       headers = [], body = None\<rparr>]\<rparr>;
          outcome =
            (case res of
               FetchThrows e \<Rightarrow> Inl e
             | NotOk code errorData \<Rightarrow>
                 Inl (Error (''Failed to fetch conversation details: '' @ string_of_nat code))
             | Ok (JsonThrows e) \<Rightarrow> Inl e
             | Ok (JsonValue data) \<Rightarrow> Inr data)
      in case outcome of
           Inl err \<Rightarrow>
             st1\<lparr>error := Some (case err of Error m \<Rightarrow> m
                                           | NonError \<Rightarrow> ''Failed to load conversation''),
                 isLoading := False\<rparr>
         | Inr data \<Rightarrow>
             st1\<lparr>selectedConversation := Some data, showModal := True, isLoading := False\<rparr>)"

text \<open>The two inputs of the filter bar; the effect runs when the value changes.\<close>

definition setSearchTerm :: "string \<Rightarrow> 'd AdminDashboard \<Rightarrow> 'd AdminDashboard" where
  "setSearchTerm s st = (if s = searchTerm st then st else filterEffect (st\<lparr>searchTerm := s\<rparr>))"

definition setStatusFilter :: "string \<Rightarrow> 'd AdminDashboard \<Rightarrow> 'd AdminDashboard" where
  "setStatusFilter f st =
     (if f = statusFilter st then st else filterEffect (st\<lparr>statusFilter := f\<rparr>))"

text \<open>Both close buttons of the modal.\<close>

definition closeModal :: "'d AdminDashboard \<Rightarrow> 'd AdminDashboard" where
  "closeModal st = st\<lparr>showModal := False, selectedConversation := None\<rparr>"

datatype 'd admin_event =
    FetchConversations "Conversation list fetch_result"
  | FetchConversationDetail string "'d fetch_result"
  | SetSearchTerm string
  | SetStatusFilter string
  | CloseModal

fun admin_step :: "'d AdminDashboard \<Rightarrow> 'd admin_event \<Rightarrow> 'd AdminDashboard" where
  "admin_step st (FetchConversations res) = fetchConversations res st"
| "admin_step st (FetchConversationDetail sid res) = fetchConversationDetail sid res st"
| "admin_step st (SetSearchTerm s) = setSearchTerm s st"
| "admin_step st (SetStatusFilter f) = setStatusFilter f st"
| "admin_step st CloseModal = closeModal st"

definition admin_run :: "'d AdminDashboard \<Rightarrow> 'd admin_event list \<Rightarrow> 'd AdminDashboard" where
  "admin_run st evs = foldl admin_step st evs"

text \<open>The two calls of the dashboard: the listing, and the detail of one session.\<close>

definition admin_call :: "http_call \<Rightarrow> bool" where
  "admin_call c =
     (req_method c = GET \<and>
      (url c = API_BASE_URL @ ''/api/conversations'' \<or>
       (\<exists>sid. url c = API_BASE_URL @ ''/api/conversations/'' @ sid)))"

text \<open>The list on screen is the filter of the list in memory.\<close>

definition filtered_ok :: "'d AdminDashboard \<Rightarrow> bool" where
  "filtered_ok st =
     (filteredConversations st = applyFilters (conversations st) (statusFilter st) (searchTerm st))"

text \<open>The four numbers of the statistics cards.\<close>

record dashboard_stats =
  total :: nat
  active :: nat
  escalated :: nat
  avgMessages :: js_number

definition stats :: "Conversation list \<Rightarrow> dashboard_stats" where
  "stats convs =
     \<lparr>total = length convs,
      active = length (filter (\<lambda>c. status c = ''active'') convs),
      escalated = length (filter (\<lambda>c. status c = ''escalated'') convs),
      avgMessages =
        (if length convs > 0
         then Math_round (js_divide (foldl (\<lambda>sum c. sum + message_count c) 0 convs)
                (int (length convs)))
         else Num 0)\<rparr>"

text \<open>
  The filter as the specification words it: a conversation is shown when its status is the
  selected one (or the filter is \<^verbatim>\<open>all\<close>) and its session id or its summary contains the
  search srch, letter case aside.
\<close>

definition contains_ci :: "string \<Rightarrow> string \<Rightarrow> bool" where
  "contains_ci hay needle = sublist (toLowerCase needle) (toLowerCase hay)"

definition shown :: "string \<Rightarrow> string \<Rightarrow> Conversation \<Rightarrow> bool" where
  "shown flt srch conv =
     ((flt = ''all'' \<or> status conv = flt) \<and>
      (contains_ci (session_id conv) srch \<or>
       (case summary conv of None \<Rightarrow> False | Some s \<Rightarrow> contains_ci s srch)))"

section \<open>The chat page\<close>

datatype role = user | assistant

record Message =
  role :: role
  content :: string
  timestamp :: nat

datatype chat_status = Active | Escalated

record ChatResponse =
  session_id :: string
  response :: string
  is_escalated :: bool
  status :: chat_status
  summary :: "string option"

text \<open>The state of \<^verbatim>\<open>ChatInterface\<close>: its six \<^verbatim>\<open>useState\<close> cells, and the list of
  the \<^verbatim>\<open>fetch\<close> calls the page has issued so far.\<close>

record ChatInterface =
  messages :: "Message list"
  inputMessage :: string
  sessionId :: "string option"
  isLoading :: bool
  error :: "string option"
  isEscalated :: bool
  fetched :: "http_call list"

definition ChatInterface_init :: ChatInterface where
  "ChatInterface_init =
     \<lparr>messages = [], inputMessage = [], sessionId = None, isLoading = False,
      error = None, isEscalated = False, fetched = []\<rparr>"

text \<open>\<^verbatim>\<open>requestBody\<close>: an object with the key \<^verbatim>\<open>user_message\<close>, and the key
  \<^verbatim>\<open>session_id\<close> added under \<^verbatim>\<open>if (sessionId)\<close>.\<close>

definition requestBody :: "string \<Rightarrow> string option \<Rightarrow> (string \<times> string) list" where
  "requestBody userMessage sid =
     [(''user_message'', userMessage)] @
     (case sid of
        None \<Rightarrow> []
      | Some s \<Rightarrow> if truthy s then [(''session_id'', s)] else [])"

text \<open>The guard \<^verbatim>\<open>if (!inputMessage.trim() || isLoading) return;\<close>.\<close>

definition blocked :: "ChatInterface \<Rightarrow> bool" where
  "blocked st = (\<not> truthy (trim (inputMessage st)) \<or> isLoading st)"

text \<open>\<^verbatim>\<open>sendMessage\<close> from the guard to \<^verbatim>\<open>await fetch\<close>; \<open>now\<close> is \<^verbatim>\<open>new Date()\<close>.\<close>

definition sendMessage_begin :: "nat \<Rightarrow> ChatInterface \<Rightarrow> ChatInterface" where
  "sendMessage_begin now st =
     (let userMessage = trim (inputMessage st) in
      st\<lparr>inputMessage := [],
         error := None,
         messages := messages st @ [\<lparr>role = user, content = userMessage, timestamp = now\<rparr>],
         isLoading := True,
         fetched := fetched st @
           [\<lparr>req_method = POST, url = API_BASE_URL @ ''/api/chat'',
             headers = [(''Content-Type'', ''application/json'')],
             body = Some (requestBody userMessage (sessionId st))\<rparr>]\<rparr>)"

text \<open>The rest of the \<^verbatim>\<open>try\<close> block, after the \<^verbatim>\<open>await\<close>: \<open>Inl\<close> is a throw.
  \<open>sid\<close> is the \<^verbatim>\<open>sessionId\<close> the closure of the call holds.\<close>

definition sendMessage_try ::
  "string option \<Rightarrow> nat \<Rightarrow> ChatResponse fetch_result \<Rightarrow> ChatInterface \<Rightarrow> thrown + ChatInterface"
where
  "sendMessage_try sid now res st =
     (case res of
        FetchThrows e \<Rightarrow> Inl e
      | NotOk code errorData \<Rightarrow>
          if code = 404 then Inl (Error ''Session not found. Starting a new conversation.'')
          else if code = 500 then
            (case errorData of
               JsonThrows e \<Rightarrow> Inl e
             | JsonValue detail \<Rightarrow>
                 Inl (Error (if truthy_opt detail then the detail else ''Server error occurred'')))
          else Inl (Error (''Request failed with status '' @ string_of_nat code))
      | Ok (JsonThrows e) \<Rightarrow> Inl e
      | Ok (JsonValue data) \<Rightarrow>
          Inr (st\<lparr>sessionId :=
                    (if \<not> truthy_opt sid \<and> truthy (session_id data)
                     then Some (session_id data) else sessionId st),
                  isEscalated := (if is_escalated data then True else isEscalated st),
                  messages := messages st @
                    [\<lparr>role = assistant, content = response data, timestamp = now\<rparr>]\<rparr>))"

text \<open>The \<^verbatim>\<open>catch\<close> block.\<close>

definition sendMessage_catch :: "nat \<Rightarrow> thrown \<Rightarrow> ChatInterface \<Rightarrow> ChatInterface" where
  "sendMessage_catch now err st =
     (let errorMessage = (case err of Error m \<Rightarrow> m | NonError \<Rightarrow> ''Failed to send message'') in
      st\<lparr>error := Some errorMessage,
         messages := messages st @
           [\<lparr>role = assistant,
             content = ''Sorry, I encountered an error: '' @ errorMessage @ ''. Please try again.'',
             timestamp = now\<rparr>]\<rparr>)"

text \<open>\<^verbatim>\<open>try\<close>, \<^verbatim>\<open>catch\<close> and \<^verbatim>\<open>finally\<close> once the fetch has settled.\<close>

definition sendMessage_resume ::
  "string option \<Rightarrow> nat \<Rightarrow> ChatResponse fetch_result \<Rightarrow> ChatInterface \<Rightarrow> ChatInterface"
where
  "sendMessage_resume sid now res st =
     (case sendMessage_try sid now res st of
        Inl err \<Rightarrow> (sendMessage_catch now err st)\<lparr>isLoading := False\<rparr>
      | Inr st' \<Rightarrow> st'\<lparr>isLoading := False\<rparr>)"

text \<open>A completed call of \<^verbatim>\<open>sendMessage\<close>: \<open>t1\<close> and \<open>t2\<close> are the two readings of the
  clock, \<open>res\<close> is what the fetch gave.\<close>

definition sendMessage ::
  "nat \<Rightarrow> nat \<Rightarrow> ChatResponse fetch_result \<Rightarrow> ChatInterface \<Rightarrow> ChatInterface"
where
  "sendMessage t1 t2 res st =
     (if blocked st then st
      else sendMessage_resume (sessionId st) t2 res (sendMessage_begin t1 st))"

definition resetChat :: "ChatInterface \<Rightarrow> ChatInterface" where
  "resetChat st =
     st\<lparr>messages := [], sessionId := None, isEscalated := False, error := None,
        inputMessage := []\<rparr>"

definition setInputMessage :: "string \<Rightarrow> ChatInterface \<Rightarrow> ChatInterface" where
  "setInputMessage s st = st\<lparr>inputMessage := s\<rparr>"

text \<open>What the user and the backend can do to the page, and a run of such events.\<close>

datatype chat_event =
    SetInput string
  | Send nat nat "ChatResponse fetch_result"
  | Reset

fun chat_step :: "ChatInterface \<Rightarrow> chat_event \<Rightarrow> ChatInterface" where
  "chat_step st (SetInput s) = setInputMessage s st"
| "chat_step st (Send t1 t2 res) = sendMessage t1 t2 res st"
| "chat_step st Reset = resetChat st"

definition chat_run :: "ChatInterface \<Rightarrow> chat_event list \<Rightarrow> ChatInterface" where
  "chat_run st evs = foldl chat_step st evs"

text \<open>The text of the assistant message a completed call appends.\<close>

definition reply_text :: "ChatResponse fetch_result \<Rightarrow> string" where
  "reply_text res =
     (case res of
        Ok (JsonValue data) \<Rightarrow> response data
      | FetchThrows e \<Rightarrow>
          ''Sorry, I encountered an error: '' @
          (case e of Error m \<Rightarrow> m | NonError \<Rightarrow> ''Failed to send message'') @
          ''. Please try again.''
      | Ok (JsonThrows e) \<Rightarrow>
          ''Sorry, I encountered an error: '' @
          (case e of Error m \<Rightarrow> m | NonError \<Rightarrow> ''Failed to send message'') @
          ''. Please try again.''
      | NotOk code errorData \<Rightarrow>
          ''Sorry, I encountered an error: '' @
          (if code = 404 then ''Session not found. Starting a new conversation.''
           else if code = 500 then
             (case errorData of
                JsonThrows (Error m) \<Rightarrow> m
              | JsonThrows NonError \<Rightarrow> ''Failed to send message''
              | JsonValue detail \<Rightarrow>
                  if truthy_opt detail then the detail else ''Server error occurred'')
           else ''Request failed with status '' @ string_of_nat code) @
          ''. Please try again.'')"

text \<open>\<open>N\<close> user turns: in each the user types \<open>s\<close> and one call of \<^verbatim>\<open>sendMessage\<close>
  completes.\<close>

fun turn_events :: "string \<times> nat \<times> nat \<times> ChatResponse fetch_result \<Rightarrow> chat_event list" where
  "turn_events (s, t1, t2, res) = [SetInput s, Send t1 t2 res]"

fun turn_messages :: "string \<times> nat \<times> nat \<times> ChatResponse fetch_result \<Rightarrow> Message list" where
  "turn_messages (s, t1, t2, res) =
     [\<lparr>role = user, content = trim s, timestamp = t1\<rparr>,
      \<lparr>role = assistant, content = reply_text res, timestamp = t2\<rparr>]"

fun turn_input :: "string \<times> nat \<times> nat \<times> ChatResponse fetch_result \<Rightarrow> string" where
  "turn_input (s, t1, t2, res) = s"

section \<open>Properties of the chat page\<close>

lemma sendMessage_messages:
  "\<not> blocked st \<Longrightarrow>
   messages (sendMessage t1 t2 res st) =
     messages st @
       [\<lparr>role = user, content = trim (inputMessage st), timestamp = t1\<rparr>,
        \<lparr>role = assistant, content = reply_text res, timestamp = t2\<rparr>]"
  by (simp add: sendMessage_def sendMessage_resume_def sendMessage_try_def
      sendMessage_catch_def sendMessage_begin_def reply_text_def Let_def
      split: fetch_result.splits json_result.splits thrown.splits)

text \<open>
  C5. When the input is empty or holds white space only, or a send is in flight
  (\<open>isLoading\<close>), \<open>sendMessage\<close> changes nothing: no fetch call is added, and the messages,
  the session id, the escalation flag and the error are what they were.
\<close>

theorem sendMessage_blocked_noop:
  "\<not> truthy (trim (inputMessage st)) \<or> isLoading st \<Longrightarrow>
   sendMessage t1 t2 res st = st
   \<and> fetched (sendMessage t1 t2 res st) = fetched st
   \<and> messages (sendMessage t1 t2 res st) = messages st
   \<and> sessionId (sendMessage t1 t2 res st) = sessionId st
   \<and> isEscalated (sendMessage t1 t2 res st) = isEscalated st
   \<and> error (sendMessage t1 t2 res st) = error st"
  by (simp add: sendMessage_def blocked_def)


theorem sendMessage_blocked_noop_witness:
  "\<not> truthy (trim (inputMessage (setInputMessage ''  '' ChatInterface_init)))
   \<and> sendMessage 1 2 (FetchThrows NonError) (setInputMessage ''  '' ChatInterface_init)
       = setInputMessage ''  '' ChatInterface_init
   \<and> isLoading (setInputMessage ''more'' (sendMessage_begin 1 (setInputMessage ''hi'' ChatInterface_init)))
   \<and> fetched (sendMessage 3 4 (FetchThrows NonError)
         (setInputMessage ''more'' (sendMessage_begin 1 (setInputMessage ''hi'' ChatInterface_init))))
       = fetched (sendMessage_begin 1 (setInputMessage ''hi'' ChatInterface_init))"
proof -
  let ?a = "setInputMessage ''  '' ChatInterface_init"
  let ?b = "setInputMessage ''more'' (sendMessage_begin 1 (setInputMessage ''hi'' ChatInterface_init))"
  have ha: "\<not> truthy (trim (inputMessage ?a))"
    by (simp add: setInputMessage_def ChatInterface_init_def trim_def truthy_def is_white_space_def)
  have hb: "isLoading ?b"
    by (simp add: setInputMessage_def sendMessage_begin_def Let_def)
  have fb: "fetched ?b = fetched (sendMessage_begin 1 (setInputMessage ''hi'' ChatInterface_init))"
    by (simp add: setInputMessage_def)
  from ha have "\<not> truthy (trim (inputMessage ?a)) \<or> isLoading ?a" by simp
  note a = sendMessage_blocked_noop [OF this, of 1 2 "FetchThrows NonError"]
  from hb have "\<not> truthy (trim (inputMessage ?b)) \<or> isLoading ?b" by simp
  note b = sendMessage_blocked_noop [OF this, of 3 4 "FetchThrows NonError"]
  show ?thesis using ha hb a b fb by simp
qed

text \<open>
  C3, as it is worded, fails on an input that is not empty but blank: the guard tests the
  trimmed input, so the call returns at once and no assistant message is appended. The same
  happens to a call made while a send is in flight.
\<close>

theorem sendMessage_blank_input_no_reply:
  "inputMessage (setInputMessage ''  '' ChatInterface_init) \<noteq> []
   \<and> messages (sendMessage 1 2
        (Ok (JsonValue \<lparr>session_id = ''s1'', response = ''Hi there'', is_escalated = False,
           status = Active, summary = None\<rparr>))
        (setInputMessage ''  '' ChatInterface_init)) = []
   \<and> inputMessage (setInputMessage ''more''
        (sendMessage_begin 1 (setInputMessage ''hi'' ChatInterface_init))) \<noteq> []
   \<and> map role (messages (sendMessage 3 4
        (Ok (JsonValue \<lparr>session_id = ''s1'', response = ''Hi there'', is_escalated = False,
           status = Active, summary = None\<rparr>))
        (setInputMessage ''more''
           (sendMessage_begin 1 (setInputMessage ''hi'' ChatInterface_init))))) = [user]"
  by (simp add: sendMessage_def blocked_def setInputMessage_def sendMessage_begin_def
      ChatInterface_init_def trim_def truthy_def is_white_space_def Let_def)

text \<open>
  C3, amended. A completed call of \<open>sendMessage\<close> that passes the guard (the trimmed input
  is not empty and no send is in flight) appends the user message and then exactly one
  assistant message: the \<open>response\<close> text when the fetch succeeded and its body parsed,
  and otherwise (the fetch threw, the status was not OK, the body did not parse) a message
  of the form "Sorry, I encountered an error: ... . Please try again.".
\<close>

theorem sendMessage_always_replies:
  "\<not> blocked st \<Longrightarrow>
   (\<exists>reply.
      messages (sendMessage t1 t2 res st) =
        messages st @
          [\<lparr>role = user, content = trim (inputMessage st), timestamp = t1\<rparr>,
           \<lparr>role = assistant, content = reply, timestamp = t2\<rparr>]
      \<and> (case res of
            Ok (JsonValue data) \<Rightarrow> reply = response data
          | _ \<Rightarrow> (\<exists>m. reply = ''Sorry, I encountered an error: '' @ m @ ''. Please try again.'')))"
  by (simp add: sendMessage_def sendMessage_resume_def sendMessage_try_def
      sendMessage_catch_def sendMessage_begin_def Let_def
      split: fetch_result.splits json_result.splits thrown.splits)

theorem sendMessage_always_replies_witness:
  "\<not> blocked (setInputMessage '' hi '' ChatInterface_init)
   \<and> messages (sendMessage 1 2 (NotOk 503 (JsonThrows NonError)) (setInputMessage '' hi '' ChatInterface_init))
       = [\<lparr>role = user, content = ''hi'', timestamp = 1\<rparr>,
          \<lparr>role = assistant,
           content = ''Sorry, I encountered an error: Request failed with status 503. Please try again.'',
           timestamp = 2\<rparr>]"
proof -
  let ?st = "setInputMessage '' hi '' ChatInterface_init"
  have h: "\<not> blocked ?st"
    by (simp add: blocked_def setInputMessage_def ChatInterface_init_def trim_def truthy_def
        is_white_space_def)
  have t: "trim (inputMessage ?st) = ''hi''"
    by (simp add: setInputMessage_def ChatInterface_init_def trim_def is_white_space_def)
  have m: "messages ?st = []"
    by (simp add: setInputMessage_def ChatInterface_init_def)
  have d: "messages (sendMessage 1 2 (NotOk 503 (JsonThrows NonError)) ?st) \<noteq> []
           \<and> content (last (messages (sendMessage 1 2 (NotOk 503 (JsonThrows NonError)) ?st)))
             = ''Sorry, I encountered an error: Request failed with status 503. Please try again.''"
    using h by (simp add: sendMessage_def sendMessage_resume_def sendMessage_try_def
        sendMessage_catch_def sendMessage_begin_def Let_def string_of_nat.simps [of 503]
        string_of_nat.simps [of 50] string_of_nat.simps [of 5] digit_char_def)
  from sendMessage_always_replies [OF h, of 1 2 "NotOk 503 (JsonThrows NonError)"]
  obtain reply where
    r: "messages (sendMessage 1 2 (NotOk 503 (JsonThrows NonError)) ?st) =
          messages ?st @
            [\<lparr>role = user, content = trim (inputMessage ?st), timestamp = 1\<rparr>,
             \<lparr>role = assistant, content = reply, timestamp = 2\<rparr>]"
    by blast
  from r d have "reply = ''Sorry, I encountered an error: Request failed with status 503. Please try again.''"
    by simp
  with r t m h show ?thesis by simp
qed

subsection \<open>Runs of the chat page\<close>

lemma isLoading_sendMessage: "\<not> isLoading st \<Longrightarrow> \<not> isLoading (sendMessage t1 t2 res st)"
  by (simp add: sendMessage_def sendMessage_resume_def sendMessage_catch_def Let_def
      split: sum.splits)

lemma isLoading_chat_step: "\<not> isLoading st \<Longrightarrow> \<not> isLoading (chat_step st ev)"
  by (cases ev) (simp_all add: isLoading_sendMessage setInputMessage_def resetChat_def)

lemma chat_run_Nil: "chat_run st [] = st"
  by (simp add: chat_run_def)

lemma chat_run_Cons: "chat_run st (ev # evs) = chat_run (chat_step st ev) evs"
  by (simp add: chat_run_def)

lemma chat_run_append: "chat_run st (xs @ ys) = chat_run (chat_run st xs) ys"
  by (simp add: chat_run_def)

lemma turn_step:
  assumes "\<not> isLoading st" "truthy (trim s)"
  shows "messages (chat_run st (turn_events (s, t1, t2, res))) =
           messages st @ turn_messages (s, t1, t2, res)"
    and "\<not> isLoading (chat_run st (turn_events (s, t1, t2, res)))"
proof -
  let ?st = "setInputMessage s st"
  have nb: "\<not> blocked ?st"
    using assms by (simp add: blocked_def setInputMessage_def)
  have "messages (sendMessage t1 t2 res ?st) = messages ?st @ turn_messages (s, t1, t2, res)"
    using sendMessage_messages [OF nb] by (simp add: setInputMessage_def)
  then show "messages (chat_run st (turn_events (s, t1, t2, res))) =
           messages st @ turn_messages (s, t1, t2, res)"
    by (simp add: chat_run_def setInputMessage_def)
  have "\<not> isLoading ?st" using assms by (simp add: setInputMessage_def)
  then show "\<not> isLoading (chat_run st (turn_events (s, t1, t2, res)))"
    by (simp add: chat_run_def isLoading_sendMessage)
qed

lemma turns_messages:
  "\<not> isLoading st \<Longrightarrow> list_all (\<lambda>t. truthy (trim (turn_input t))) turns \<Longrightarrow>
   messages (chat_run st (concat (map turn_events turns))) =
     messages st @ concat (map turn_messages turns)"
proof (induction turns arbitrary: st)
  case Nil
  then show ?case by (simp add: chat_run_Nil)
next
  case (Cons t turns)
  obtain s t1 t2 res where t: "t = (s, t1, t2, res)" by (cases t) auto
  from Cons.prems t have ok: "truthy (trim s)" by simp
  note step = turn_step [OF Cons.prems(1) ok, of t1 t2 res]
  from Cons.prems have rest: "list_all (\<lambda>t. truthy (trim (turn_input t))) turns" by simp
  have "messages (chat_run st (concat (map turn_events (t # turns)))) =
        messages (chat_run (chat_run st (turn_events t)) (concat (map turn_events turns)))"
    by (simp only: list.map concat.simps chat_run_append)
  also have "\<dots> = messages (chat_run st (turn_events t)) @ concat (map turn_messages turns)"
    using Cons.IH [OF _ rest] step(2) t by simp
  also have "\<dots> = messages st @ concat (map turn_messages (t # turns))"
    using step(1) t by simp
  finally show ?case .
qed

lemma roles_turn_messages:
  "map role (concat (map turn_messages turns)) = concat (replicate (length turns) [user, assistant])"
  by (induction turns) auto

lemma length_turn_messages: "length (concat (map turn_messages turns)) = 2 * length turns"
  by (induction turns) auto

text \<open>
  C2, as it is worded, fails on an input that is not empty but blank: one completed call on
  two spaces leaves the history empty, where the claim counts two entries.
\<close>

theorem history_blank_input:
  "turn_input (''  '', 1, 2, FetchThrows NonError) \<noteq> []
   \<and> length (messages (chat_run ChatInterface_init
         (concat (map turn_events [(''  '', 1, 2, FetchThrows NonError)])))) = 0
   \<and> 2 * length [(''  '', 1 :: nat, 2 :: nat, FetchThrows NonError :: ChatResponse fetch_result)] = 2"
  by (simp add: chat_run_def sendMessage_def blocked_def setInputMessage_def
      ChatInterface_init_def trim_def truthy_def is_white_space_def)

text \<open>
  C2, amended. Start from an empty history with no send in flight, and let \<open>N\<close> calls of
  \<open>sendMessage\<close> complete one after the other, each on an input that is not empty after
  trimming. Then the history has exactly \<open>2N\<close> entries, \<open>N\<close> of the user and \<open>N\<close> of the
  assistant, the roles alternate starting with the user, and the entries are, in order,
  each trimmed input followed by the reply to it.
\<close>

theorem history_two_per_send:
  assumes "messages st = []" and "\<not> isLoading st"
    and "list_all (\<lambda>t. truthy (trim (turn_input t))) turns"
  shows "length (messages (chat_run st (concat (map turn_events turns)))) = 2 * length turns
    \<and> length (filter (\<lambda>m. role m = user)
         (messages (chat_run st (concat (map turn_events turns))))) = length turns
    \<and> length (filter (\<lambda>m. role m = assistant)
         (messages (chat_run st (concat (map turn_events turns))))) = length turns
    \<and> map role (messages (chat_run st (concat (map turn_events turns))))
        = concat (replicate (length turns) [user, assistant])
    \<and> messages (chat_run st (concat (map turn_events turns))) = concat (map turn_messages turns)"
proof -
  let ?ms = "messages (chat_run st (concat (map turn_events turns)))"
  have ms: "?ms = concat (map turn_messages turns)"
    using turns_messages [OF assms(2,3)] assms(1) by simp
  have u: "length (filter (\<lambda>m. role m = user) (concat (map turn_messages turns))) = length turns"
    by (induction turns) auto
  have a: "length (filter (\<lambda>m. role m = assistant) (concat (map turn_messages turns))) = length turns"
    by (induction turns) auto
  show ?thesis
    unfolding ms using u a roles_turn_messages length_turn_messages by simp
qed


theorem history_two_per_send_witness:
  "messages ChatInterface_init = [] \<and> \<not> isLoading ChatInterface_init
   \<and> list_all (\<lambda>t. truthy (trim (turn_input t)))
        [(''hello'', 1, 2, Ok (JsonValue \<lparr>session_id = ''s1'', response = ''Hi there'',
              is_escalated = False, status = Active, summary = None\<rparr>)),
         ('' refund? '', 3, 4, NotOk 404 (JsonValue None))]
   \<and> map role (messages (chat_run ChatInterface_init (concat (map turn_events
        [(''hello'', 1, 2, Ok (JsonValue \<lparr>session_id = ''s1'', response = ''Hi there'',
              is_escalated = False, status = Active, summary = None\<rparr>)),
         ('' refund? '', 3, 4, NotOk 404 (JsonValue None))]))))
       = [user, assistant, user, assistant]
   \<and> map content (messages (chat_run ChatInterface_init (concat (map turn_events
        [(''hello'', 1, 2, Ok (JsonValue \<lparr>session_id = ''s1'', response = ''Hi there'',
              is_escalated = False, status = Active, summary = None\<rparr>)),
         ('' refund? '', 3, 4, NotOk 404 (JsonValue None))]))))
       = [''hello'', ''Hi there'', ''refund?'',
          ''Sorry, I encountered an error: Session not found. Starting a new conversation.. Please try again.'']"
proof -
  let ?turns = "[(''hello'', 1, 2, Ok (JsonValue \<lparr>session_id = ''s1'', response = ''Hi there'',
              is_escalated = False, status = Active, summary = None\<rparr>)),
         ('' refund? '', 3::nat, 4::nat, NotOk 404 (JsonValue None))]"
  have a: "messages ChatInterface_init = []" and b: "\<not> isLoading ChatInterface_init"
    by (simp_all add: ChatInterface_init_def)
  have c: "list_all (\<lambda>t. truthy (trim (turn_input t))) ?turns"
    by (simp add: trim_def truthy_def is_white_space_def)
  have t: "trim '' refund? '' = ''refund?''" "trim ''hello'' = ''hello''"
    by (simp_all add: trim_def is_white_space_def)
  show ?thesis
    using a b c history_two_per_send [OF a b c] t by (simp add: reply_text_def)
qed

lemma isEscalated_sendMessage: "isEscalated st \<Longrightarrow> isEscalated (sendMessage t1 t2 res st)"
  by (simp add: sendMessage_def sendMessage_resume_def sendMessage_try_def
      sendMessage_catch_def sendMessage_begin_def Let_def
      split: fetch_result.splits json_result.splits)

lemma isEscalated_chat_step: "isEscalated st \<Longrightarrow> ev \<noteq> Reset \<Longrightarrow> isEscalated (chat_step st ev)"
  by (cases ev) (simp_all add: isEscalated_sendMessage setInputMessage_def)

lemma isEscalated_chat_run:
  "isEscalated st \<Longrightarrow> Reset \<notin> set evs \<Longrightarrow> isEscalated (chat_run st evs)"
proof (induction evs arbitrary: st)
  case Nil
  then show ?case by (simp add: chat_run_Nil)
next
  case (Cons ev evs)
  from Cons.prems have "isEscalated (chat_step st ev)"
    by (intro isEscalated_chat_step) auto
  with Cons show ?case by (simp add: chat_run_Cons)
qed

text \<open>
  C4. Once a response with \<open>is_escalated\<close> set has been taken in, \<open>isEscalated\<close> holds,
  and it holds after every further run of events that has no \<open>resetChat\<close> in it, whatever
  the later responses say.
\<close>

theorem isEscalated_monotonic:
  assumes "\<not> blocked st" and "is_escalated data" and "Reset \<notin> set evs"
  shows "isEscalated (sendMessage t1 t2 (Ok (JsonValue data)) st)
    \<and> isEscalated (chat_run (sendMessage t1 t2 (Ok (JsonValue data)) st) evs)"
proof -
  have now: "isEscalated (sendMessage t1 t2 (Ok (JsonValue data)) st)"
    using assms(1,2)
    by (simp add: sendMessage_def sendMessage_resume_def sendMessage_try_def)
  from isEscalated_chat_run [OF now assms(3)] now show ?thesis by simp
qed

theorem isEscalated_monotonic_witness:
  "\<not> blocked (setInputMessage ''my order is lost'' ChatInterface_init)
   \<and> is_escalated \<lparr>session_id = ''s1'', response = ''An agent will help'',
        is_escalated = True, status = Escalated, summary = Some ''lost order''\<rparr>
   \<and> Reset \<notin> set [SetInput ''thanks'',
        Send 3 4 (Ok (JsonValue \<lparr>session_id = ''s1'', response = ''You are welcome'',
          is_escalated = False, status = Active, summary = None\<rparr>))]
   \<and> isEscalated (chat_run
        (sendMessage 1 2 (Ok (JsonValue \<lparr>session_id = ''s1'', response = ''An agent will help'',
            is_escalated = True, status = Escalated, summary = Some ''lost order''\<rparr>))
          (setInputMessage ''my order is lost'' ChatInterface_init))
        [SetInput ''thanks'',
         Send 3 4 (Ok (JsonValue \<lparr>session_id = ''s1'', response = ''You are welcome'',
           is_escalated = False, status = Active, summary = None\<rparr>))])
   \<and> length (messages (chat_run
        (sendMessage 1 2 (Ok (JsonValue \<lparr>session_id = ''s1'', response = ''An agent will help'',
            is_escalated = True, status = Escalated, summary = Some ''lost order''\<rparr>))
          (setInputMessage ''my order is lost'' ChatInterface_init))
        [SetInput ''thanks'',
         Send 3 4 (Ok (JsonValue \<lparr>session_id = ''s1'', response = ''You are welcome'',
           is_escalated = False, status = Active, summary = None\<rparr>))])) = 4"
proof -
  let ?st = "setInputMessage ''my order is lost'' ChatInterface_init"
  let ?d = "\<lparr>session_id = ''s1'', response = ''An agent will help'',
        is_escalated = True, status = Escalated, summary = Some ''lost order''\<rparr>"
  let ?evs = "[SetInput ''thanks'',
        Send 3 4 (Ok (JsonValue \<lparr>session_id = ''s1'', response = ''You are welcome'',
          is_escalated = False, status = Active, summary = None\<rparr>))]"
  have a: "\<not> blocked ?st"
    by (simp add: blocked_def setInputMessage_def ChatInterface_init_def trim_def truthy_def
        is_white_space_def)
  have b: "is_escalated ?d" by simp
  have c: "Reset \<notin> set ?evs" by simp
  have n: "length (messages (chat_run (sendMessage 1 2 (Ok (JsonValue ?d)) ?st) ?evs)) = 4"
    by (simp add: chat_run_def sendMessage_def sendMessage_resume_def sendMessage_try_def
        sendMessage_begin_def blocked_def setInputMessage_def ChatInterface_init_def trim_def
        truthy_def truthy_opt_def is_white_space_def Let_def)
  show ?thesis
    using a b c n isEscalated_monotonic [OF a b c, of 1 2] by simp
qed

text \<open>
  C1. The page at a 404: a first send opens the session \<open>s1\<close>, the second send is answered
  with 404. The stored \<open>sessionId\<close> is still \<open>s1\<close> afterwards, and the third request
  carries \<open>session_id = s1\<close> again.
\<close>

theorem sendMessage_404_keeps_sessionId:
  "sessionId (chat_run ChatInterface_init
      [SetInput ''hello'',
       Send 1 2 (Ok (JsonValue \<lparr>session_id = ''s1'', response = ''Hi there'',
          is_escalated = False, status = Active, summary = None\<rparr>)),
       SetInput ''where is my order?'',
       Send 3 4 (NotOk 404 (JsonValue (Some ''Session not found'')))]) = Some ''s1''
   \<and> map body (fetched (chat_run ChatInterface_init
      [SetInput ''hello'',
       Send 1 2 (Ok (JsonValue \<lparr>session_id = ''s1'', response = ''Hi there'',
          is_escalated = False, status = Active, summary = None\<rparr>)),
       SetInput ''where is my order?'',
       Send 3 4 (NotOk 404 (JsonValue (Some ''Session not found''))),
       SetInput ''again'',
       Send 5 6 (NotOk 404 (JsonValue (Some ''Session not found'')))]))
     = [Some [(''user_message'', ''hello'')],
        Some [(''user_message'', ''where is my order?''), (''session_id'', ''s1'')],
        Some [(''user_message'', ''again''), (''session_id'', ''s1'')]]"
  by (simp add: chat_run_def sendMessage_def sendMessage_resume_def sendMessage_try_def
        sendMessage_catch_def sendMessage_begin_def blocked_def setInputMessage_def
        ChatInterface_init_def trim_def requestBody_def
        truthy_def truthy_opt_def is_white_space_def Let_def)

text \<open>The stored session id is never the empty string: \<open>sendMessage\<close> stores a session id
  only when it is truthy.\<close>

lemma sessionId_sendMessage:
  "sessionId st \<noteq> Some [] \<Longrightarrow> sessionId (sendMessage t1 t2 res st) \<noteq> Some []"
  by (simp add: sendMessage_def sendMessage_resume_def sendMessage_try_def
      sendMessage_catch_def sendMessage_begin_def Let_def truthy_def
      split: fetch_result.splits json_result.splits)

lemma sessionId_chat_step: "sessionId st \<noteq> Some [] \<Longrightarrow> sessionId (chat_step st ev) \<noteq> Some []"
  by (cases ev) (simp_all add: sessionId_sendMessage setInputMessage_def resetChat_def)

lemma sessionId_chat_run: "sessionId st \<noteq> Some [] \<Longrightarrow> sessionId (chat_run st evs) \<noteq> Some []"
proof (induction evs arbitrary: st)
  case Nil
  then show ?case by (simp add: chat_run_Nil)
next
  case (Cons ev evs)
  from Cons.prems have "sessionId (chat_step st ev) \<noteq> Some []"
    by (rule sessionId_chat_step)
  then show ?case by (simp add: chat_run_Cons Cons.IH)
qed

lemma requestBody_keys:
  assumes "sid \<noteq> Some []"
  shows "map_of (requestBody u sid) ''user_message'' = Some u"
    and "map_of (requestBody u sid) ''session_id'' = sid"
    and "fst ` set (requestBody u sid) \<subseteq> {''user_message'', ''session_id''}"
  using assms by (auto simp: requestBody_def truthy_def split: option.splits)

lemma fetched_sendMessage:
  "\<not> blocked st \<Longrightarrow>
   fetched (sendMessage t1 t2 res st) =
     fetched st @
       [\<lparr>req_method = POST, url = API_BASE_URL @ ''/api/chat'',
         headers = [(''Content-Type'', ''application/json'')],
         body = Some (requestBody (trim (inputMessage st)) (sessionId st))\<rparr>]"
  by (simp add: sendMessage_def sendMessage_resume_def sendMessage_try_def
      sendMessage_catch_def sendMessage_begin_def Let_def
      split: fetch_result.splits json_result.splits)

text \<open>
  C6. In every state the page can reach, a send that passes the guard issues one request
  whose body has the key \<open>user_message\<close> (the trimmed input), has the key \<open>session_id\<close>
  exactly when a session id is stored (and then with that id), and has no other key. The
  response the page reads is a \<open>ChatResponse\<close>: the five fields \<open>session_id\<close>, \<open>response\<close>,
  \<open>is_escalated\<close>, \<open>status\<close> (active or escalated) and \<open>summary\<close> (a string or null), and
  nothing else.
\<close>

theorem send_message_shapes:
  "\<not> blocked (chat_run ChatInterface_init evs) \<Longrightarrow>
   (\<exists>b. map body (fetched (sendMessage t1 t2 res (chat_run ChatInterface_init evs)))
          = map body (fetched (chat_run ChatInterface_init evs)) @ [Some b]
       \<and> map_of b ''user_message'' = Some (trim (inputMessage (chat_run ChatInterface_init evs)))
       \<and> map_of b ''session_id'' = sessionId (chat_run ChatInterface_init evs)
       \<and> fst ` set b \<subseteq> {''user_message'', ''session_id''})
   \<and> (\<forall>r :: ChatResponse.
         r = \<lparr>session_id = session_id r, response = response r,
              is_escalated = is_escalated r, status = status r, summary = summary r\<rparr>
         \<and> (status r = Active \<or> status r = Escalated)
         \<and> (summary r = None \<or> (\<exists>s. summary r = Some s)))"
proof -
  assume nb: "\<not> blocked (chat_run ChatInterface_init evs)"
  let ?st = "chat_run ChatInterface_init evs"
  have "sessionId ChatInterface_init \<noteq> Some []" by (simp add: ChatInterface_init_def)
  then have ok: "sessionId ?st \<noteq> Some []" by (rule sessionId_chat_run)
  let ?b = "requestBody (trim (inputMessage ?st)) (sessionId ?st)"
  have "map body (fetched (sendMessage t1 t2 res ?st)) = map body (fetched ?st) @ [Some ?b]"
    using fetched_sendMessage [OF nb] by simp
  with requestBody_keys [OF ok, of "trim (inputMessage ?st)"]
  have req: "\<exists>b. map body (fetched (sendMessage t1 t2 res ?st)) = map body (fetched ?st) @ [Some b]
       \<and> map_of b ''user_message'' = Some (trim (inputMessage ?st))
       \<and> map_of b ''session_id'' = sessionId ?st
       \<and> fst ` set b \<subseteq> {''user_message'', ''session_id''}"
    by blast
  have shape: "r = \<lparr>session_id = session_id r, response = response r,
              is_escalated = is_escalated r, status = status r, summary = summary r\<rparr>
         \<and> (status r = Active \<or> status r = Escalated)
         \<and> (summary r = None \<or> (\<exists>s. summary r = Some s))" for r :: ChatResponse
  proof -
    have "status r = Active \<or> status r = Escalated" by (cases "status r") simp_all
    moreover have "summary r = None \<or> (\<exists>s. summary r = Some s)" by (cases "summary r") simp_all
    ultimately show ?thesis by simp
  qed
  from req shape show ?thesis by blast
qed

theorem send_message_shapes_witness:
  "\<not> blocked (chat_run ChatInterface_init
      [SetInput ''hello'',
       Send 1 2 (Ok (JsonValue \<lparr>session_id = ''s1'', response = ''Hi there'',
          is_escalated = False, status = Active, summary = None\<rparr>)),
       SetInput '' where is my order? ''])
   \<and> map body (fetched (sendMessage 3 4 (FetchThrows NonError) (chat_run ChatInterface_init
      [SetInput ''hello'',
       Send 1 2 (Ok (JsonValue \<lparr>session_id = ''s1'', response = ''Hi there'',
          is_escalated = False, status = Active, summary = None\<rparr>)),
       SetInput '' where is my order? ''])))
     = [Some [(''user_message'', ''hello'')],
        Some [(''user_message'', ''where is my order?''), (''session_id'', ''s1'')]]"
proof -
  let ?evs = "[SetInput ''hello'',
       Send 1 2 (Ok (JsonValue \<lparr>session_id = ''s1'', response = ''Hi there'',
          is_escalated = False, status = Active, summary = None\<rparr>)),
       SetInput '' where is my order? '']"
  have st: "chat_run ChatInterface_init ?evs =
      \<lparr>messages = [\<lparr>role = user, content = ''hello'', timestamp = 1\<rparr>,
                   \<lparr>role = assistant, content = ''Hi there'', timestamp = 2\<rparr>],
       inputMessage = '' where is my order? '', sessionId = Some ''s1'', isLoading = False,
       error = None, isEscalated = False,
       fetched = [\<lparr>req_method = POST, url = API_BASE_URL @ ''/api/chat'',
         headers = [(''Content-Type'', ''application/json'')],
         body = Some [(''user_message'', ''hello'')]\<rparr>]\<rparr>"
    by (simp add: chat_run_def sendMessage_def sendMessage_resume_def sendMessage_try_def
        sendMessage_begin_def blocked_def setInputMessage_def
        ChatInterface_init_def trim_def requestBody_def
        truthy_def truthy_opt_def is_white_space_def Let_def)
  have nb: "\<not> blocked (chat_run ChatInterface_init ?evs)"
    unfolding st by (simp add: blocked_def trim_def truthy_def is_white_space_def)
  have t: "trim '' where is my order? '' = ''where is my order?''"
    by (simp add: trim_def is_white_space_def)
  from send_message_shapes [OF nb, of 3 4 "FetchThrows NonError"]
  obtain b where
    b: "map body (fetched (sendMessage 3 4 (FetchThrows NonError) (chat_run ChatInterface_init ?evs)))
          = map body (fetched (chat_run ChatInterface_init ?evs)) @ [Some b]"
    by blast
  have e: "map body (fetched (sendMessage 3 4 (FetchThrows NonError) (chat_run ChatInterface_init ?evs)))
     = [Some [(''user_message'', ''hello'')],
        Some [(''user_message'', ''where is my order?''), (''session_id'', ''s1'')]]"
    using nb unfolding st
    by (simp add: sendMessage_def sendMessage_resume_def sendMessage_try_def
        sendMessage_catch_def sendMessage_begin_def Let_def requestBody_def truthy_def t)
  from nb b e show ?thesis by simp
qed

section \<open>Properties of the admin dashboard\<close>

lemma contains_ci_empty: "contains_ci hay []"
  by (simp add: contains_ci_def toLowerCase_def)

lemma includes_contains_ci: "includes_str (toLowerCase hay) (toLowerCase needle) = contains_ci hay needle"
  by (simp add: includes_str_def contains_ci_def)

lemma contains_ci_in_empty: "srch \<noteq> [] \<Longrightarrow> \<not> contains_ci [] srch"
  by (simp add: contains_ci_def toLowerCase_def)

lemma applyFilters_shown: "applyFilters convs flt srch = filter (shown flt srch) convs"
proof -
  let ?code = "\<lambda>conv.
     includes_str (toLowerCase (Conversation.session_id conv)) (toLowerCase srch) \<or>
     (case Conversation.summary conv of
        None \<Rightarrow> False
      | Some s \<Rightarrow> truthy s \<and> includes_str (toLowerCase s) (toLowerCase srch))"
  let ?P = "\<lambda>conv. (flt = ''all'' \<or> Conversation.status conv = flt) \<and> (srch = [] \<or> ?code conv)"
  have A: "applyFilters convs flt srch = filter ?P convs"
    by (simp add: applyFilters_def Let_def truthy_def conj_commute)
  have B: "?P c = shown flt srch c" for c
  proof (cases "srch = []")
    case True
    then show ?thesis
      by (simp add: shown_def contains_ci_empty)
  next
    case False
    have "?code c = (contains_ci (Conversation.session_id c) srch \<or>
        (case Conversation.summary c of None \<Rightarrow> False | Some s \<Rightarrow> contains_ci s srch))"
      using contains_ci_in_empty [OF False]
      by (auto simp: includes_contains_ci truthy_def split: option.splits)
    with False show ?thesis
      by (simp add: shown_def)
  qed
  show ?thesis
    unfolding A by (rule filter_cong) (simp_all add: B)
qed

lemma filtered_ok_filterEffect: "filtered_ok (filterEffect st)"
  by (simp add: filtered_ok_def filterEffect_def)

lemma filtered_ok_fetchConversations:
  "filtered_ok st \<Longrightarrow> filtered_ok (fetchConversations res st)"
proof (cases res)
  case (FetchThrows e)
  assume "filtered_ok st"
  then show ?thesis
    unfolding FetchThrows by (simp add: fetchConversations_def Let_def filtered_ok_def)
next
  case (NotOk code errorData)
  assume "filtered_ok st"
  then show ?thesis
    unfolding NotOk by (simp add: fetchConversations_def Let_def filtered_ok_def)
next
  case (Ok j)
  assume ok: "filtered_ok st"
  show ?thesis
  proof (cases j)
    case (JsonThrows e)
    with ok show ?thesis
      unfolding Ok by (simp add: fetchConversations_def Let_def filtered_ok_def)
  next
    case (JsonValue data)
    then show ?thesis
      unfolding Ok by (simp add: fetchConversations_def Let_def filtered_ok_filterEffect)
  qed
qed

lemma filtered_ok_fetchConversationDetail:
  "filtered_ok st \<Longrightarrow> filtered_ok (fetchConversationDetail sid res st)"
  by (simp add: fetchConversationDetail_def Let_def filtered_ok_def
      split: fetch_result.splits json_result.splits)

lemma filtered_ok_step: "filtered_ok st \<Longrightarrow> filtered_ok (admin_step st ev)"
proof (cases ev)
  case (FetchConversations res)
  assume "filtered_ok st"
  then show ?thesis
    unfolding FetchConversations by (simp add: filtered_ok_fetchConversations)
next
  case (FetchConversationDetail sid res)
  assume "filtered_ok st"
  then show ?thesis
    unfolding FetchConversationDetail by (simp add: filtered_ok_fetchConversationDetail)
next
  case (SetSearchTerm s)
  assume "filtered_ok st"
  then show ?thesis
    unfolding SetSearchTerm by (simp add: setSearchTerm_def filtered_ok_filterEffect)
next
  case (SetStatusFilter f)
  assume "filtered_ok st"
  then show ?thesis
    unfolding SetStatusFilter by (simp add: setStatusFilter_def filtered_ok_filterEffect)
next
  case CloseModal
  assume "filtered_ok st"
  then show ?thesis
    unfolding CloseModal by (simp add: closeModal_def filtered_ok_def)
qed

lemma filtered_ok_run: "filtered_ok st \<Longrightarrow> filtered_ok (admin_run st evs)"
proof (induction evs arbitrary: st)
  case Nil
  then show ?case by (simp add: admin_run_def)
next
  case (Cons ev evs)
  from Cons.prems have "filtered_ok (admin_step st ev)" by (rule filtered_ok_step)
  from Cons.IH [OF this] show ?case by (simp add: admin_run_def)
qed

lemma filtered_ok_init: "filtered_ok AdminDashboard_init"
  by (simp add: filtered_ok_def AdminDashboard_init_def applyFilters_def Let_def)

text \<open>
  C7. The list the dashboard shows is computed in the page: in every state the page can
  reach (a state is taken once the filter effect has run), \<open>filteredConversations\<close> is
  exactly the conversations whose status is the selected filter (all of them when the
  filter is \<open>all\<close>) and whose session id or summary contains the search term, letter case
  aside; they come in the order of the fetched list, of which the shown list is a
  subsequence. The same holds of the effect's body on every list, filter and search term.
\<close>

theorem filteredConversations_shown:
  "filteredConversations (admin_run AdminDashboard_init evs)
     = filter (shown (statusFilter (admin_run AdminDashboard_init evs))
                 (searchTerm (admin_run AdminDashboard_init evs)))
         (conversations (admin_run AdminDashboard_init evs))
   \<and> subseq (filteredConversations (admin_run AdminDashboard_init evs))
         (conversations (admin_run AdminDashboard_init evs))
   \<and> applyFilters convs flt srch = filter (shown flt srch) convs
   \<and> subseq (applyFilters convs flt srch) convs"
proof -
  let ?st = "admin_run AdminDashboard_init evs"
  have "filtered_ok ?st"
    using filtered_ok_init by (rule filtered_ok_run)
  then have eq: "filteredConversations ?st
      = filter (shown (statusFilter ?st) (searchTerm ?st)) (conversations ?st)"
    by (simp add: filtered_ok_def applyFilters_shown)
  have sub: "subseq (filter P xs) xs" for P :: "Conversation \<Rightarrow> bool" and xs
    by simp
  show ?thesis
    unfolding eq applyFilters_shown using sub by simp
qed

theorem filteredConversations_shown_witness:
  "filteredConversations (admin_run (AdminDashboard_init :: unit AdminDashboard)
      [FetchConversations (Ok (JsonValue
         [\<lparr>Conversation.session_id = ''AB12'', Conversation.status = ''active'', created_at = ''t0'', updated_at = ''t1'',
           message_count = 2, Conversation.is_escalated = False, Conversation.summary = None\<rparr>,
          \<lparr>Conversation.session_id = ''cd34'', Conversation.status = ''escalated'', created_at = ''t2'', updated_at = ''t3'',
           message_count = 4, Conversation.is_escalated = True, Conversation.summary = Some ''Refund ab1 late''\<rparr>,
          \<lparr>Conversation.session_id = ''ef56'', Conversation.status = ''escalated'', created_at = ''t4'', updated_at = ''t5'',
           message_count = 6, Conversation.is_escalated = True, Conversation.summary = Some ''Lost parcel''\<rparr>])),
       SetSearchTerm ''aB1'', SetStatusFilter ''escalated''])
   = [\<lparr>Conversation.session_id = ''cd34'', Conversation.status = ''escalated'', created_at = ''t2'', updated_at = ''t3'',
       message_count = 4, Conversation.is_escalated = True, Conversation.summary = Some ''Refund ab1 late''\<rparr>]"
proof -
  let ?c1 = "\<lparr>Conversation.session_id = ''AB12'', Conversation.status = ''active'', created_at = ''t0'', updated_at = ''t1'',
           message_count = 2, Conversation.is_escalated = False, Conversation.summary = None\<rparr>"
  let ?c2 = "\<lparr>Conversation.session_id = ''cd34'', Conversation.status = ''escalated'', created_at = ''t2'', updated_at = ''t3'',
           message_count = 4, Conversation.is_escalated = True, Conversation.summary = Some ''Refund ab1 late''\<rparr>"
  let ?c3 = "\<lparr>Conversation.session_id = ''ef56'', Conversation.status = ''escalated'', created_at = ''t4'', updated_at = ''t5'',
           message_count = 6, Conversation.is_escalated = True, Conversation.summary = Some ''Lost parcel''\<rparr>"
  let ?evs = "[FetchConversations (Ok (JsonValue [?c1, ?c2, ?c3])),
       SetSearchTerm ''aB1'', SetStatusFilter ''escalated''] :: unit admin_event list"
  let ?st = "admin_run AdminDashboard_init ?evs"
  have c: "conversations ?st = [?c1, ?c2, ?c3]"
    and f: "statusFilter ?st = ''escalated''" and s: "searchTerm ?st = ''aB1''"
    by (simp_all add: admin_run_def fetchConversations_def setSearchTerm_def setStatusFilter_def
        filterEffect_def AdminDashboard_init_def Let_def)
  have s1: "\<not> shown ''escalated'' ''aB1'' ?c1"
    by (simp add: shown_def)
  have s2: "shown ''escalated'' ''aB1'' ?c2"
    unfolding shown_def contains_ci_def by code_simp
  have s3: "\<not> shown ''escalated'' ''aB1'' ?c3"
    unfolding shown_def contains_ci_def by code_simp
  from filteredConversations_shown [of ?evs]
  have "filteredConversations ?st
      = filter (shown (statusFilter ?st) (searchTerm ?st)) (conversations ?st)"
    by (rule conjunct1)
  then have "filteredConversations ?st = filter (shown ''escalated'' ''aB1'') [?c1, ?c2, ?c3]"
    by (simp only: c f s)
  with s1 s2 s3 show ?thesis by simp
qed

text \<open>
  C9. The statistics are defined on every list. When every status is \<open>active\<close> or
  \<open>escalated\<close>, the total is the sum of the two counts. The average is \<open>0\<close> on the empty
  list, and on every list it is an integer: the division, which would give \<open>NaN\<close> on
  the empty list, is only done when the list is not empty.
\<close>

theorem stats_well_defined:
  assumes "\<forall>c \<in> set convs. Conversation.status c \<in> {''active'', ''escalated''}"
  shows "total (stats convs) = active (stats convs) + escalated (stats convs)
    \<and> avgMessages (stats []) = Num 0
    \<and> (\<exists>k :: int. avgMessages (stats convs) = Num (of_int k))"
proof -
  have ne: "''active'' \<noteq> ''escalated''" by simp
  have "filter (\<lambda>c. Conversation.status c = ''escalated'') convs
      = filter (\<lambda>c. \<not> Conversation.status c = ''active'') convs"
    using assms ne by (intro filter_cong) auto
  then have "length (filter (\<lambda>c. Conversation.status c = ''active'') convs)
      + length (filter (\<lambda>c. Conversation.status c = ''escalated'') convs) = length convs"
    using sum_length_filter_compl [of "\<lambda>c. Conversation.status c = ''active''" convs] by simp
  then have t: "total (stats convs) = active (stats convs) + escalated (stats convs)"
    by (simp add: stats_def)
  have e: "avgMessages (stats []) = Num 0"
    by (simp add: stats_def)
  have a: "\<exists>k :: int. avgMessages (stats convs) = Num (of_int k)"
  proof (cases "convs = []")
    case True
    with e have "avgMessages (stats convs) = Num (of_int 0)" by simp
    then show ?thesis by (rule exI)
  next
    case False
    then have "int (length convs) \<noteq> 0" by simp
    then show ?thesis
      using False by (simp add: stats_def js_divide_def Math_round_def)
  qed
  from t e a show ?thesis by blast
qed

theorem stats_well_defined_witness:
  "list_all (\<lambda>c. Conversation.status c = ''active'' \<or> Conversation.status c = ''escalated'')
     [\<lparr>Conversation.session_id = ''AB12'', Conversation.status = ''active'', created_at = ''t0'', updated_at = ''t1'',
       message_count = 2, Conversation.is_escalated = False, Conversation.summary = None\<rparr>,
      \<lparr>Conversation.session_id = ''cd34'', Conversation.status = ''escalated'', created_at = ''t2'', updated_at = ''t3'',
       message_count = 5, Conversation.is_escalated = True, Conversation.summary = Some ''Refund late''\<rparr>]
   \<and> total (stats
     [\<lparr>Conversation.session_id = ''AB12'', Conversation.status = ''active'', created_at = ''t0'', updated_at = ''t1'',
       message_count = 2, Conversation.is_escalated = False, Conversation.summary = None\<rparr>,
      \<lparr>Conversation.session_id = ''cd34'', Conversation.status = ''escalated'', created_at = ''t2'', updated_at = ''t3'',
       message_count = 5, Conversation.is_escalated = True, Conversation.summary = Some ''Refund late''\<rparr>]) = 1 + 1
   \<and> avgMessages (stats
     [\<lparr>Conversation.session_id = ''AB12'', Conversation.status = ''active'', created_at = ''t0'', updated_at = ''t1'',
       message_count = 2, Conversation.is_escalated = False, Conversation.summary = None\<rparr>,
      \<lparr>Conversation.session_id = ''cd34'', Conversation.status = ''escalated'', created_at = ''t2'', updated_at = ''t3'',
       message_count = 5, Conversation.is_escalated = True, Conversation.summary = Some ''Refund late''\<rparr>]) = Num 4"
proof -
  let ?cs = "[\<lparr>Conversation.session_id = ''AB12'', Conversation.status = ''active'', created_at = ''t0'', updated_at = ''t1'',
       message_count = 2, Conversation.is_escalated = False, Conversation.summary = None\<rparr>,
      \<lparr>Conversation.session_id = ''cd34'', Conversation.status = ''escalated'', created_at = ''t2'', updated_at = ''t3'',
       message_count = 5, Conversation.is_escalated = True, Conversation.summary = Some ''Refund late''\<rparr>]"
  have h: "\<forall>c \<in> set ?cs. Conversation.status c \<in> {''active'', ''escalated''}" by simp
  have ac: "active (stats ?cs) = 1" and es: "escalated (stats ?cs) = 1"
    by (simp_all add: stats_def)
  have av: "avgMessages (stats ?cs) = Num 4"
    by (simp add: stats_def js_divide_def Math_round_def)
  from stats_well_defined [OF h] ac es av show ?thesis by simp
qed

section \<open>The calls both pages make\<close>

lemma fetched_sendMessage_cases:
  "fetched (sendMessage t1 t2 res st) = fetched st \<or>
   fetched (sendMessage t1 t2 res st) =
     fetched st @
       [\<lparr>req_method = POST, url = API_BASE_URL @ ''/api/chat'',
         headers = [(''Content-Type'', ''application/json'')],
         body = Some (requestBody (trim (inputMessage st)) (sessionId st))\<rparr>]"
  using fetched_sendMessage [of st t1 t2 res] by (cases "blocked st") (simp_all add: sendMessage_def)

lemma chat_calls_step:
  assumes "\<forall>c \<in> set (fetched st). req_method c = POST \<and> url c = API_BASE_URL @ ''/api/chat''"
  shows "\<forall>c \<in> set (fetched (chat_step st ev)). req_method c = POST \<and> url c = API_BASE_URL @ ''/api/chat''"
proof (cases ev)
  case (SetInput s)
  with assms show ?thesis by (simp add: setInputMessage_def)
next
  case (Send t1 t2 res)
  with assms fetched_sendMessage_cases [of t1 t2 res st] show ?thesis by auto
next
  case Reset
  with assms show ?thesis by (simp add: resetChat_def)
qed

lemma chat_calls_run:
  "\<forall>c \<in> set (fetched st). req_method c = POST \<and> url c = API_BASE_URL @ ''/api/chat'' \<Longrightarrow>
   \<forall>c \<in> set (fetched (chat_run st evs)). req_method c = POST \<and> url c = API_BASE_URL @ ''/api/chat''"
proof (induction evs arbitrary: st)
  case Nil
  then show ?case by (simp add: chat_run_Nil)
next
  case (Cons ev evs)
  from chat_calls_step [OF Cons.prems]
  have "\<forall>c \<in> set (fetched (chat_step st ev)). req_method c = POST \<and> url c = API_BASE_URL @ ''/api/chat''" .
  from Cons.IH [OF this] show ?case by (simp add: chat_run_Cons)
qed

lemma admin_calls_step:
  assumes "\<forall>c \<in> set (AdminDashboard.fetched st). admin_call c"
  shows "\<forall>c \<in> set (AdminDashboard.fetched (admin_step st ev)). admin_call c"
proof (cases ev)
  case (FetchConversations res)
  with assms show ?thesis
    by (auto simp: fetchConversations_def filterEffect_def Let_def admin_call_def
        split: fetch_result.splits json_result.splits)
next
  case (FetchConversationDetail sid res)
  with assms show ?thesis
    by (auto simp: fetchConversationDetail_def Let_def admin_call_def
        split: fetch_result.splits json_result.splits)
next
  case (SetSearchTerm s)
  with assms show ?thesis by (simp add: setSearchTerm_def filterEffect_def)
next
  case (SetStatusFilter f)
  with assms show ?thesis by (simp add: setStatusFilter_def filterEffect_def)
next
  case CloseModal
  with assms show ?thesis by (simp add: closeModal_def)
qed

lemma admin_calls_run:
  "\<forall>c \<in> set (AdminDashboard.fetched st). admin_call c \<Longrightarrow>
   \<forall>c \<in> set (AdminDashboard.fetched (admin_run st evs)). admin_call c"
proof (induction evs arbitrary: st)
  case Nil
  then show ?case by (simp add: admin_run_def)
next
  case (Cons ev evs)
  from admin_calls_step [OF Cons.prems] have "\<forall>c \<in> set (AdminDashboard.fetched (admin_step st ev)). admin_call c" .
  from Cons.IH [OF this] show ?case by (simp add: admin_run_def)
qed

text \<open>
  C8. Whatever the user and the backend do, every call the chat page makes is
  \<open>POST /api/chat\<close>, and every call the admin dashboard makes is \<open>GET /api/conversations\<close>
  or \<open>GET /api/conversations/{session_id}\<close>.
\<close>

theorem only_exposed_operations:
  "(\<forall>c \<in> set (fetched (chat_run ChatInterface_init evs)).
       req_method c = POST \<and> url c = API_BASE_URL @ ''/api/chat'')
   \<and> (\<forall>c \<in> set (AdminDashboard.fetched (admin_run AdminDashboard_init aevs)).
       req_method c = GET \<and>
       (url c = API_BASE_URL @ ''/api/conversations'' \<or>
        (\<exists>sid. url c = API_BASE_URL @ ''/api/conversations/'' @ sid)))"
proof -
  have "\<forall>c \<in> set (fetched ChatInterface_init). req_method c = POST \<and> url c = API_BASE_URL @ ''/api/chat''"
    by (simp add: ChatInterface_init_def)
  then have chat: "\<forall>c \<in> set (fetched (chat_run ChatInterface_init evs)).
       req_method c = POST \<and> url c = API_BASE_URL @ ''/api/chat''"
    by (rule chat_calls_run)
  have "\<forall>c \<in> set (AdminDashboard.fetched AdminDashboard_init). admin_call c"
    by (simp add: AdminDashboard_init_def)
  then have "\<forall>c \<in> set (AdminDashboard.fetched (admin_run AdminDashboard_init aevs)). admin_call c"
    by (rule admin_calls_run)
  with chat show ?thesis by (simp add: admin_call_def)
qed

theorem only_exposed_operations_witness:
  "map url (fetched (chat_run ChatInterface_init
      [SetInput ''hello'', Send 1 2 (FetchThrows NonError)]))
     = [''http://localhost:8000/api/chat'']
   \<and> list_all (\<lambda>c. req_method c = POST) (fetched (chat_run ChatInterface_init
      [SetInput ''hello'', Send 1 2 (FetchThrows NonError)]))
   \<and> map url (AdminDashboard.fetched (admin_run (AdminDashboard_init :: unit AdminDashboard)
      [FetchConversations (NotOk 503 (JsonThrows NonError)),
       FetchConversationDetail ''s1'' (FetchThrows NonError)]))
     = [''http://localhost:8000/api/conversations'', ''http://localhost:8000/api/conversations/s1'']
   \<and> list_all (\<lambda>c. req_method c = GET) (AdminDashboard.fetched
      (admin_run (AdminDashboard_init :: unit AdminDashboard)
      [FetchConversations (NotOk 503 (JsonThrows NonError)),
       FetchConversationDetail ''s1'' (FetchThrows NonError)]))"
proof -
  let ?evs = "[SetInput ''hello'', Send 1 2 (FetchThrows NonError)]"
  let ?aevs = "[FetchConversations (NotOk 503 (JsonThrows NonError)),
       FetchConversationDetail ''s1'' (FetchThrows NonError)] :: unit admin_event list"
  have u: "map url (fetched (chat_run ChatInterface_init ?evs)) = [''http://localhost:8000/api/chat'']"
    by (simp add: chat_run_def sendMessage_def sendMessage_resume_def sendMessage_try_def
        sendMessage_catch_def sendMessage_begin_def blocked_def setInputMessage_def
        ChatInterface_init_def trim_def truthy_def is_white_space_def Let_def API_BASE_URL_def)
  have a: "map url (AdminDashboard.fetched (admin_run AdminDashboard_init ?aevs))
     = [''http://localhost:8000/api/conversations'', ''http://localhost:8000/api/conversations/s1'']"
    by (simp add: admin_run_def fetchConversations_def fetchConversationDetail_def
        AdminDashboard_init_def Let_def API_BASE_URL_def)
  from only_exposed_operations [of ?evs ?aevs]
  have "list_all (\<lambda>c. req_method c = POST) (fetched (chat_run ChatInterface_init ?evs))"
    and "list_all (\<lambda>c. req_method c = GET) (AdminDashboard.fetched (admin_run AdminDashboard_init ?aevs))"
    by (simp_all add: list_all_iff)
  with u a show ?thesis by simp
qed

section \<open>Properties of \<^verbatim>\<open>renderText\<close>\<close>

lemma parts_text_append: "parts_text (xs @ ys) = parts_text xs @ parts_text ys"
  by (simp add: parts_text_def)

lemma parts_text_simps:
  "parts_text [] = []" "parts_text [Str s] = s" "parts_text [Strong k s] = s"
  by (simp_all add: parts_text_def)

lemma filter_not_star_replicate: "filter not_star (replicate k (CHR ''*'')) = []"
  by (simp add: not_star_def)

lemma substring_drop:
  assumes "drop li input = pre @ rest" and "li \<le> length input"
  shows "substring input li (li + length pre) = pre"
proof -
  have "length (drop li input) = length pre + length rest" using assms(1) by simp
  then have len: "li + length pre \<le> length input" using assms(2) by simp
  have "substring input li (li + length pre) = take (length pre) (drop li input)"
    using len assms(2) by (simp add: substring_def Let_def min_def max_def)
  then show ?thesis using assms(1) by simp
qed

lemma loop_step_text:
  assumes ex: "boldRegex_exec input li = Some m"
  shows "\<exists>pre k g rest.
      drop li input = pre @ replicate k (CHR ''*'') @ g @ replicate k (CHR ''*'') @ rest
    \<and> drop (index m + length (whole m)) input = rest
    \<and> parts_text ((if index m > li then parts @ [Str (substring input li (index m))] else parts)
          @ [Strong (index m) (boldText m)]) = parts_text parts @ pre @ g"
proof -
  from exec_shape [OF ex] obtain pre k g rest where
    d: "drop li input = pre @ replicate k (CHR ''*'') @ g @ replicate k (CHR ''*'') @ rest"
    and le: "li \<le> length input"
    and i: "index m = li + length pre"
    and w: "whole m = replicate k (CHR ''*'') @ g @ replicate k (CHR ''*'')"
    and b: "boldText m = g"
    by blast
  have "drop (index m + length (whole m)) input = drop (length pre + length (whole m)) (drop li input)"
    using i by (simp add: add.commute add.left_commute)
  also have "\<dots> = rest" using d w by simp
  finally have r: "drop (index m + length (whole m)) input = rest" .
  have sub: "substring input li (index m) = pre"
    using substring_drop [OF d le] i by simp
  have "parts_text ((if index m > li then parts @ [Str (substring input li (index m))] else parts)
          @ [Strong (index m) (boldText m)]) = parts_text parts @ pre @ g"
  proof (cases "index m > li")
    case True
    then show ?thesis using sub b by (simp add: parts_text_def)
  next
    case False
    with i have "pre = []" by simp
    with False show ?thesis using b by (simp add: parts_text_def)
  qed
  with d r show ?thesis by blast
qed

lemma subseq_drop_stars:
  "subseq (a @ pre @ g @ rest) (a @ pre @ s1 @ g @ s2 @ rest)"
proof -
  have r: "subseq rest rest" and g: "subseq g g" and p: "subseq pre pre" and a: "subseq a a"
    by simp_all
  have e1: "subseq [] s1" and e2: "subseq [] s2"
    by simp_all
  from list_emb_append_mono [OF e2 r] have "subseq rest (s2 @ rest)" by simp
  from list_emb_append_mono [OF g this] have "subseq (g @ rest) (g @ s2 @ rest)" .
  from list_emb_append_mono [OF e1 this] have "subseq (g @ rest) (s1 @ g @ s2 @ rest)" by simp
  from list_emb_append_mono [OF p this] have "subseq (pre @ g @ rest) (pre @ s1 @ g @ s2 @ rest)" .
  from list_emb_append_mono [OF a this] show ?thesis .
qed

lemma loop_text:
  "renderText_loop input li parts = (ps, li') \<Longrightarrow>
   filter not_star (parts_text ps @ drop li' input) = filter not_star (parts_text parts @ drop li input)
   \<and> subseq (parts_text ps @ drop li' input) (parts_text parts @ drop li input)"
proof (induction input li parts arbitrary: ps li' rule: renderText_loop.induct)
  case (1 input lastIndex parts)
  show ?case
  proof (cases "boldRegex_exec input lastIndex")
    case None
    with "1.prems" show ?thesis by (simp add: renderText_loop.simps [of input lastIndex parts])
  next
    case (Some m)
    let ?parts' = "(if index m > lastIndex
              then parts @ [Str (substring input lastIndex (index m))] else parts)
             @ [Strong (index m) (boldText m)]"
    from "1.prems" Some
    have rec: "renderText_loop input (index m + length (whole m)) ?parts' = (ps, li')"
      by (simp add: renderText_loop.simps [of input lastIndex parts])
    note ih = "1.IH" [OF Some rec]
    from loop_step_text [OF Some, of parts] obtain pre k g rest where
      d: "drop lastIndex input = pre @ replicate k (CHR ''*'') @ g @ replicate k (CHR ''*'') @ rest"
      and r: "drop (index m + length (whole m)) input = rest"
      and t: "parts_text ?parts' = parts_text parts @ pre @ g"
      by blast
    have f: "filter not_star (parts_text ?parts' @ drop (index m + length (whole m)) input)
           = filter not_star (parts_text parts @ drop lastIndex input)"
      unfolding t r d by (simp add: filter_not_star_replicate)
    have s: "subseq (parts_text ?parts' @ drop (index m + length (whole m)) input)
           (parts_text parts @ drop lastIndex input)"
      unfolding t r d using subseq_drop_stars [of "parts_text parts" pre g rest] by simp
    from ih f s show ?thesis
      by (metis subseq_order.order_trans)
  qed
qed

lemma loop_grows:
  "renderText_loop input li parts = (ps, li') \<Longrightarrow>
   (ps = parts \<and> li' = li) \<or> length parts < length ps"
proof (induction input li parts arbitrary: ps li' rule: renderText_loop.induct)
  case (1 input lastIndex parts)
  show ?case
  proof (cases "boldRegex_exec input lastIndex")
    case None
    with "1.prems" show ?thesis by (simp add: renderText_loop.simps [of input lastIndex parts])
  next
    case (Some m)
    let ?parts' = "(if index m > lastIndex
              then parts @ [Str (substring input lastIndex (index m))] else parts)
             @ [Strong (index m) (boldText m)]"
    from "1.prems" Some
    have rec: "renderText_loop input (index m + length (whole m)) ?parts' = (ps, li')"
      by (simp add: renderText_loop.simps [of input lastIndex parts])
    from "1.IH" [OF Some rec] have "length ?parts' \<le> length ps" by auto
    moreover have "length parts < length ?parts'" by simp
    ultimately show ?thesis by linarith
  qed
qed

lemma loop_upper:
  "renderText_loop input li parts = (ps, li') \<Longrightarrow> li \<le> length input \<Longrightarrow> li' \<le> length input"
proof (induction input li parts arbitrary: ps li' rule: renderText_loop.induct)
  case (1 input lastIndex parts)
  show ?case
  proof (cases "boldRegex_exec input lastIndex")
    case None
    with "1.prems" show ?thesis by (simp add: renderText_loop.simps [of input lastIndex parts])
  next
    case (Some m)
    from "1.prems" Some
    have rec: "renderText_loop input (index m + length (whole m)) ((if index m > lastIndex
              then parts @ [Str (substring input lastIndex (index m))] else parts)
             @ [Strong (index m) (boldText m)]) = (ps, li')"
      by (simp add: renderText_loop.simps [of input lastIndex parts])
    from "1.IH" [OF Some rec] exec_bounds(3) [OF Some] show ?thesis by simp
  qed
qed

lemma rendered_text_renderText:
  "\<exists>ps li'. renderText_loop input 0 [] = (ps, li')
     \<and> rendered_text (renderText input) = parts_text ps @ drop li' input"
proof -
  obtain ps li' where l: "renderText_loop input 0 [] = (ps, li')" by (cases "renderText_loop input 0 []")
  from loop_upper [OF l] have up: "li' \<le> length input" by simp
  from loop_grows [OF l] have gr: "(ps = [] \<and> li' = 0) \<or> 0 < length ps" by simp
  have "rendered_text (renderText input) = parts_text ps @ drop li' input"
  proof (cases "li' < length input")
    case True
    then show ?thesis using l
      by (simp add: renderText_def rendered_text_def Let_def parts_text_def)
  next
    case False
    with up have e: "li' = length input" by simp
    show ?thesis
    proof (cases "ps = []")
      case True
      with gr e have "input = []" by simp
      with True e l show ?thesis
        by (simp add: renderText_def rendered_text_def Let_def parts_text_def)
    next
      case False
      with e l show ?thesis
        by (simp add: renderText_def rendered_text_def Let_def parts_text_def)
    qed
  qed
  with l show ?thesis by blast
qed

lemma exec_no_star:
  assumes "CHR ''*'' \<notin> set input"
  shows "boldRegex_exec input li = None"
proof (cases "boldRegex_exec input li")
  case None
  then show ?thesis .
next
  case (Some m)
  from exec_shape [OF Some] obtain pre k g rest where
    d: "drop li input = pre @ replicate k (CHR ''*'') @ g @ replicate k (CHR ''*'') @ rest"
    and k: "k = 1 \<or> k = 2"
    by blast
  from k have "CHR ''*'' \<in> set (replicate k (CHR ''*''))" by auto
  with d have "CHR ''*'' \<in> set (drop li input)" by simp
  then have "CHR ''*'' \<in> set input" by (rule in_set_dropD)
  with assms show ?thesis by simp
qed

lemma scan_offset:
  "boldRegex_scan i s = map_option (\<lambda>m. m\<lparr>index := i + index m\<rparr>) (boldRegex_scan 0 s)"
proof (induction s arbitrary: i)
  case Nil
  show ?case
    by (simp add: boldRegex_scan.simps [of _ "[]"] match_double_def match_single_def)
next
  case (Cons c t)
  show ?case
  proof (cases "match_double (c # t)")
    case (Some g)
    then show ?thesis
      by (simp add: boldRegex_scan.simps [of _ "c # t"])
  next
    case None
    note nd = None
    show ?thesis
    proof (cases "match_single (c # t)")
      case (Some g)
      with nd show ?thesis
        by (simp add: boldRegex_scan.simps [of _ "c # t"])
    next
      case None
      have a: "boldRegex_scan i (c # t) = boldRegex_scan (Suc i) t"
        and b: "boldRegex_scan 0 (c # t) = boldRegex_scan (Suc 0) t"
        using nd None by (simp_all add: boldRegex_scan.simps [of _ "c # t"])
      show ?thesis
        unfolding a b
        by (subst Cons.IH [of "Suc i"], subst Cons.IH [of "Suc 0"])
          (simp add: option.map_comp comp_def)
    qed
  qed
qed

lemma loop_parts:
  "renderText_loop input li parts =
     (parts @ fst (renderText_loop input li []), snd (renderText_loop input li []))"
proof (induction "length input - li" arbitrary: li parts rule: less_induct)
  case less
  show ?case
  proof (cases "boldRegex_exec input li")
    case None
    then show ?thesis
      by (simp add: renderText_loop.simps [of input li])
  next
    case (Some m)
    define new where "new = (if index m > li then [Str (substring input li (index m))] else [])
                  @ [Strong (index m) (boldText m)]"
    define li2 where "li2 = index m + length (whole m)"
    from exec_bounds [OF Some] have "length input - li2 < length input - li"
      unfolding li2_def by (simp del: length_greater_0_conv)
    note ih = less [OF this]
    have p: "renderText_loop input li parts = renderText_loop input li2 (parts @ new)"
      using Some by (simp add: renderText_loop.simps [of input li parts] new_def li2_def)
    have e: "renderText_loop input li [] = renderText_loop input li2 new"
      using Some by (simp add: renderText_loop.simps [of input li "[]"] new_def li2_def)
    have A: "renderText_loop input li2 (parts @ new) =
        ((parts @ new) @ fst (renderText_loop input li2 []), snd (renderText_loop input li2 []))"
      by (rule ih)
    have B: "renderText_loop input li2 new =
        (new @ fst (renderText_loop input li2 []), snd (renderText_loop input li2 []))"
      by (rule ih)
    show ?thesis
      by (simp only: p e A B fst_conv snd_conv append_assoc)
  qed
qed

lemma rest_text_None:
  "boldRegex_exec input li = None \<Longrightarrow> rest_text input li = drop li input"
  by (simp add: rest_text_def renderText_loop.simps [of input li "[]"] parts_text_def)

lemma rest_text_Some:
  assumes "boldRegex_exec input li = Some m"
  shows "rest_text input li =
     take (index m - li) (drop li input) @ boldText m @ rest_text input (index m + length (whole m))"
proof -
  let ?new = "(if index m > li then [Str (substring input li (index m))] else [])
                @ [Strong (index m) (boldText m)]"
  let ?li = "index m + length (whole m)"
  from exec_bounds [OF assms] have b: "li \<le> index m" "index m + length (whole m) \<le> length input"
    by simp_all
  have sub: "parts_text ?new = take (index m - li) (drop li input) @ boldText m"
    using b by (simp add: parts_text_def substring_def Let_def min_def max_def)
  have e: "renderText_loop input li [] = renderText_loop input ?li ?new"
    using assms by (simp add: renderText_loop.simps [of input li "[]"])
  have "rest_text input li = parts_text ?new @ rest_text input ?li"
    unfolding rest_text_def e
    by (subst loop_parts [of input ?li ?new]) (simp add: parts_text_def split: prod.splits)
  with sub show ?thesis by simp
qed

lemma exec_drop:
  "li \<le> length input \<Longrightarrow>
   boldRegex_exec input li =
     map_option (\<lambda>m. m\<lparr>index := li + index m\<rparr>) (boldRegex_exec (drop li input) 0)"
  by (simp add: boldRegex_exec_def scan_offset [of li])

lemma rest_text_shift:
  "li \<le> length input \<Longrightarrow> rest_text input li = rest_text (drop li input) 0"
proof (induction "length input - li" arbitrary: input li rule: less_induct)
  case less
  let ?d = "drop li input"
  show ?case
  proof (cases "boldRegex_exec ?d 0")
    case None
    with exec_drop [OF less.prems] have "boldRegex_exec input li = None" by simp
    with None show ?thesis by (simp add: rest_text_None)
  next
    case (Some m')
    let ?m = "m'\<lparr>index := li + index m'\<rparr>"
    from exec_drop [OF less.prems] Some have ex: "boldRegex_exec input li = Some ?m" by simp
    from exec_bounds [OF Some] have b': "0 < length (whole m')"
      "index m' + length (whole m') \<le> length ?d" by simp_all
    from exec_bounds(3) [OF ex] have b: "li + (index m' + length (whole m')) \<le> length input"
      by (simp add: add.assoc)
    let ?k = "index m' + length (whole m')"
    have m1: "length input - (li + ?k) < length input - li"
      using b b'(1) by linarith
    have m2: "length ?d - ?k < length input - li"
      using b'(1) b by (simp del: length_greater_0_conv)
    have "rest_text input (li + ?k) = rest_text (drop (li + ?k) input) 0"
      using b by (intro less(1) [OF m1]) simp
    moreover have "rest_text ?d ?k = rest_text (drop ?k ?d) 0"
      using b' by (intro less(1) [OF m2]) simp
    moreover have "drop ?k ?d = drop (li + ?k) input"
      by (simp add: add.commute)
    ultimately have r: "rest_text input (li + ?k) = rest_text ?d ?k" by simp
    have bt: "boldText ?m = boldText m'" by (simp add: boldText_def split: option.splits)
    have "rest_text input li = take (index m') ?d @ boldText m' @ rest_text input (li + ?k)"
      using rest_text_Some [OF ex] by (simp add: bt add.assoc)
    moreover have "rest_text ?d 0 = take (index m') ?d @ boldText m' @ rest_text ?d ?k"
      using rest_text_Some [OF Some] by simp
    ultimately show ?thesis using r by simp
  qed
qed

lemma rendered_text_rest_text: "rendered_text (renderText s) = rest_text s 0"
  using rendered_text_renderText [of s] by (auto simp: rest_text_def)

lemma rendered_unfold_None:
  "boldRegex_scan 0 s = None \<Longrightarrow> rendered_text (renderText s) = s"
  using rest_text_None [of s 0] by (simp add: rendered_text_rest_text boldRegex_exec_def)

lemma rendered_unfold_Some:
  assumes "boldRegex_scan 0 s = Some m"
  shows "rendered_text (renderText s) =
     take (index m) s @ boldText m @ rendered_text (renderText (drop (index m + length (whole m)) s))"
proof -
  have ex: "boldRegex_exec s 0 = Some m" using assms by (simp add: boldRegex_exec_def)
  from exec_bounds [OF ex] have "index m + length (whole m) \<le> length s" by simp
  from rest_text_shift [OF this] rest_text_Some [OF ex]
  show ?thesis by (simp add: rendered_text_rest_text)
qed

lemma rendered_skip:
  assumes "boldRegex_scan 0 (p @ s) = boldRegex_scan (length p) s"
  shows "rendered_text (renderText (p @ s)) = p @ rendered_text (renderText s)"
proof (cases "boldRegex_scan 0 s")
  case None
  with assms scan_offset [of "length p" s] have "boldRegex_scan 0 (p @ s) = None" by simp
  with None show ?thesis by (simp add: rendered_unfold_None)
next
  case (Some m')
  let ?m = "m'\<lparr>index := length p + index m'\<rparr>"
  from assms scan_offset [of "length p" s] Some
  have sc: "boldRegex_scan 0 (p @ s) = Some ?m" by simp
  have bt: "boldText ?m = boldText m'" by (simp add: boldText_def split: option.splits)
  have "rendered_text (renderText (p @ s)) =
      p @ take (index m') s @ boldText m' @
        rendered_text (renderText (drop (index m' + length (whole m')) s))"
    using rendered_unfold_Some [OF sc] by (simp add: bt add.assoc)
  with rendered_unfold_Some [OF Some] show ?thesis by simp
qed

lemma scan_skip_plain:
  "CHR ''*'' \<notin> set p \<Longrightarrow> boldRegex_scan i (p @ s) = boldRegex_scan (i + length p) s"
proof (induction p arbitrary: i)
  case Nil
  show ?case by simp
next
  case (Cons c p)
  then have c: "c \<noteq> CHR ''*''" and p: "CHR ''*'' \<notin> set p" by auto
  have "match_double (c # p @ s) = None" "match_single (c # p @ s) = None"
    using c by (simp_all add: match_double_def match_single_def Let_def split: list.splits)
  then have "boldRegex_scan i ((c # p) @ s) = boldRegex_scan (Suc i) (p @ s)"
    by (simp add: boldRegex_scan.simps [of i "c # p @ s"])
  with Cons.IH [OF p, of "Suc i"] show ?case by simp
qed

lemma takeWhile_group:
  assumes "CHR ''*'' \<notin> set g"
  shows "takeWhile not_star (g @ CHR ''*'' # r) = g"
    and "dropWhile not_star (g @ CHR ''*'' # r) = CHR ''*'' # r"
proof -
  have all: "\<forall>x \<in> set g. not_star x" using assms by (auto simp: not_star_def)
  have "\<not> not_star (CHR ''*'')" by (simp add: not_star_def)
  then have "takeWhile not_star (g @ CHR ''*'' # r) = takeWhile not_star g"
    by (rule takeWhile_tail)
  with all show "takeWhile not_star (g @ CHR ''*'' # r) = g"
    by (simp add: takeWhile_eq_all_conv)
  from all show "dropWhile not_star (g @ CHR ''*'' # r) = CHR ''*'' # r"
    by (simp add: dropWhile_append not_star_def)
qed

lemma match_double_head:
  assumes "g \<noteq> []" "CHR ''*'' \<notin> set g"
  shows "match_double (''**'' @ g @ ''**'' @ rest) = Some g"
  using assms takeWhile_group [OF assms(2), of "CHR ''*'' # rest"]
  by (simp add: match_double_def Let_def)

lemma match_single_head:
  assumes "g \<noteq> []" "CHR ''*'' \<notin> set g"
  shows "match_double (''*'' @ g @ ''*'' @ rest) = None"
    and "match_single (''*'' @ g @ ''*'' @ rest) = Some g"
proof -
  from assms obtain c g' where g: "g = c # g'" and c: "c \<noteq> CHR ''*''"
    by (cases g) auto
  show "match_double (''*'' @ g @ ''*'' @ rest) = None"
    using g c by (simp add: match_double_def Let_def)
  show "match_single (''*'' @ g @ ''*'' @ rest) = Some g"
    using assms takeWhile_group [OF assms(2), of rest]
    by (simp add: match_single_def Let_def)
qed

lemma match_double_shape:
  assumes "match_double (CHR ''*'' # t) = Some g"
  shows "\<exists>r. g \<noteq> [] \<and> CHR ''*'' \<notin> set g \<and> t = ''*'' @ g @ ''**'' @ r"
proof -
  from assms obtain rest where t: "t = CHR ''*'' # rest"
    and g: "g = takeWhile not_star rest" "g \<noteq> []"
    and a: "take 2 (dropWhile not_star rest) = ''**''"
    by (auto simp: match_double_def Let_def split: list.splits if_splits)
  from a obtain r where r: "dropWhile not_star rest = ''**'' @ r"
    by (metis append_take_drop_id)
  have "rest = g @ ''**'' @ r"
    using g r takeWhile_dropWhile_id [of not_star rest] by simp
  moreover have "CHR ''*'' \<notin> set g"
    using g(1) by (auto simp: not_star_def dest: set_takeWhileD)
  ultimately show ?thesis using t g(2) by auto
qed

lemma match_single_shape:
  assumes "match_single (CHR ''*'' # t) = Some g"
  shows "\<exists>r. g \<noteq> [] \<and> CHR ''*'' \<notin> set g \<and> t = g @ ''*'' @ r"
proof -
  from assms have g: "g = takeWhile not_star t" "g \<noteq> []"
    and a: "take 1 (dropWhile not_star t) = ''*''"
    by (auto simp: match_single_def Let_def split: if_splits)
  from a obtain r where r: "dropWhile not_star t = ''*'' @ r"
    by (metis append_take_drop_id)
  have "t = g @ ''*'' @ r"
    using g r takeWhile_dropWhile_id [of not_star t] by simp
  moreover have "CHR ''*'' \<notin> set g"
    using g(1) by (auto simp: not_star_def dest: set_takeWhileD)
  ultimately show ?thesis using g(2) by auto
qed

lemma scan_double:
  "match_double s = Some g \<Longrightarrow>
   boldRegex_scan i s
     = Some \<lparr>index = i, whole = ''**'' @ g @ ''**'', group1 = Some g, group2 = None\<rparr>"
  by (simp add: boldRegex_scan.simps [of i s])

lemma scan_single:
  "match_double s = None \<Longrightarrow> match_single s = Some g \<Longrightarrow>
   boldRegex_scan i s
     = Some \<lparr>index = i, whole = ''*'' @ g @ ''*'', group1 = None, group2 = Some g\<rparr>"
  by (simp add: boldRegex_scan.simps [of i s])

lemma rendered_double:
  assumes "CHR ''*'' \<notin> set pre" "g \<noteq> []" "CHR ''*'' \<notin> set g"
  shows "rendered_text (renderText (pre @ ''**'' @ g @ ''**'' @ rest))
       = pre @ g @ rendered_text (renderText rest)"
proof -
  let ?s = "''**'' @ g @ ''**'' @ rest"
  have sc: "boldRegex_scan 0 ?s
      = Some \<lparr>index = 0, whole = ''**'' @ g @ ''**'', group1 = Some g, group2 = None\<rparr>"
    by (rule scan_double [OF match_double_head [OF assms(2,3), of rest]])
  have "rendered_text (renderText ?s) = g @ rendered_text (renderText rest)"
    using rendered_unfold_Some [OF sc] assms(2) by (simp add: boldText_def truthy_def)
  moreover have "rendered_text (renderText (pre @ ?s)) = pre @ rendered_text (renderText ?s)"
    using scan_skip_plain [OF assms(1), of 0 ?s] by (intro rendered_skip) simp
  ultimately show ?thesis by simp
qed

lemma rendered_single:
  assumes "CHR ''*'' \<notin> set pre" "g \<noteq> []" "CHR ''*'' \<notin> set g"
  shows "rendered_text (renderText (pre @ ''*'' @ g @ ''*'' @ rest))
       = pre @ g @ rendered_text (renderText rest)"
proof -
  let ?s = "''*'' @ g @ ''*'' @ rest"
  have sc: "boldRegex_scan 0 ?s
      = Some \<lparr>index = 0, whole = ''*'' @ g @ ''*'', group1 = None, group2 = Some g\<rparr>"
    by (rule scan_single [OF match_single_head [OF assms(2,3), of rest]])
  have "rendered_text (renderText ?s) = g @ rendered_text (renderText rest)"
    using rendered_unfold_Some [OF sc] by (simp add: boldText_def)
  moreover have "rendered_text (renderText (pre @ ?s)) = pre @ rendered_text (renderText ?s)"
    using scan_skip_plain [OF assms(1), of 0 ?s] by (intro rendered_skip) simp
  ultimately show ?thesis by simp
qed

lemma rendered_lone_star:
  assumes "CHR ''*'' \<notin> set pre"
    and "\<not> (\<exists>g r. g \<noteq> [] \<and> CHR ''*'' \<notin> set g \<and>
            (t = g @ ''*'' @ r \<or> t = ''*'' @ g @ ''**'' @ r))"
  shows "rendered_text (renderText (pre @ CHR ''*'' # t)) = pre @ CHR ''*'' # rendered_text (renderText t)"
proof -
  have nd: "match_double (CHR ''*'' # t) = None"
  proof (cases "match_double (CHR ''*'' # t)")
    case (Some g)
    from match_double_shape [OF Some] assms(2) show ?thesis by blast
  qed simp
  have ns: "match_single (CHR ''*'' # t) = None"
  proof (cases "match_single (CHR ''*'' # t)")
    case (Some g)
    from match_single_shape [OF Some] assms(2) show ?thesis by blast
  qed simp
  have "boldRegex_scan (length pre) (CHR ''*'' # t) = boldRegex_scan (Suc (length pre)) t"
    using nd ns by (simp add: boldRegex_scan.simps [of "length pre" "CHR ''*'' # t"])
  with scan_skip_plain [OF assms(1), of 0 "CHR ''*'' # t"]
  have "boldRegex_scan 0 ((pre @ ''*'') @ t) = boldRegex_scan (length (pre @ ''*'')) t"
    by simp
  from rendered_skip [OF this] show ?thesis by simp
qed

text \<open>
  C10. On a line without a star \<open>renderText\<close> gives the line back unchanged: as its only
  part, or as the input itself when the line is empty. On every line the text of the parts is
  the line with the delimiters of the matches left out, and nothing else:
  \<^item> it is a subsequence of the line (nothing is added, repeated or moved) and it has every
    character of the line that is not a star, in the same order;
  \<^item> behind a piece without a star, a group \<open>g\<close> without a star between two pairs of
    stars, or between two single stars, comes out as \<open>g\<close>, the delimiters are gone, and
    the text goes on with the text of the rest of the line;
  \<^item> behind a piece without a star, a star at which no match starts (what follows is
    neither a group and a star, nor a star, a group and two stars) is kept, and the text
    goes on with the text of what follows it.
  These equations fix the text of every line: a line has no star, or its first star starts
  a match of one of the two forms, or it starts none.
\<close>

theorem renderText_text:
  "(CHR ''*'' \<notin> set input \<longrightarrow>
      renderText input = (if input = [] then Input input else Parts [Str input])
      \<and> rendered_text (renderText input) = input)
   \<and> subseq (rendered_text (renderText input)) input
   \<and> filter (\<lambda>c. c \<noteq> CHR ''*'') (rendered_text (renderText input))
       = filter (\<lambda>c. c \<noteq> CHR ''*'') input
   \<and> (CHR ''*'' \<notin> set pre \<and> g \<noteq> [] \<and> CHR ''*'' \<notin> set g \<longrightarrow>
        rendered_text (renderText (pre @ ''**'' @ g @ ''**'' @ rest))
          = pre @ g @ rendered_text (renderText rest)
        \<and> rendered_text (renderText (pre @ ''*'' @ g @ ''*'' @ rest))
          = pre @ g @ rendered_text (renderText rest))
   \<and> (CHR ''*'' \<notin> set pre \<and>
        \<not> (\<exists>h r. h \<noteq> [] \<and> CHR ''*'' \<notin> set h \<and>
              (t = h @ ''*'' @ r \<or> t = ''*'' @ h @ ''**'' @ r)) \<longrightarrow>
        rendered_text (renderText (pre @ ''*'' @ t))
          = pre @ ''*'' @ rendered_text (renderText t))"
proof -
  from rendered_text_renderText [of input] obtain ps li' where
    l: "renderText_loop input 0 [] = (ps, li')"
    and t: "rendered_text (renderText input) = parts_text ps @ drop li' input"
    by blast
  from loop_text [OF l] t
  have a: "filter not_star (rendered_text (renderText input)) = filter not_star input"
    and b: "subseq (rendered_text (renderText input)) input"
    by (simp_all add: parts_text_simps)
  have ns: "not_star = (\<lambda>c. c \<noteq> CHR ''*'')" by (rule ext) (simp add: not_star_def)
  have c: "renderText input = (if input = [] then Input input else Parts [Str input])
      \<and> rendered_text (renderText input) = input" if "CHR ''*'' \<notin> set input"
  proof -
    have "renderText_loop input 0 [] = ([], 0)"
      using exec_no_star [OF that, of 0] by (simp add: renderText_loop.simps [of input 0 "[]"])
    then show ?thesis by (simp add: renderText_def rendered_text_def Let_def)
  qed
  from a ns have a': "filter (\<lambda>c. c \<noteq> CHR ''*'') (rendered_text (renderText input))
       = filter (\<lambda>c. c \<noteq> CHR ''*'') input"
    by simp
  from c have c': "CHR ''*'' \<notin> set input \<longrightarrow>
      renderText input = (if input = [] then Input input else Parts [Str input])
      \<and> rendered_text (renderText input) = input"
    by blast
  have d: "CHR ''*'' \<notin> set pre \<and> g \<noteq> [] \<and> CHR ''*'' \<notin> set g \<longrightarrow>
        rendered_text (renderText (pre @ ''**'' @ g @ ''**'' @ rest))
          = pre @ g @ rendered_text (renderText rest)
        \<and> rendered_text (renderText (pre @ ''*'' @ g @ ''*'' @ rest))
          = pre @ g @ rendered_text (renderText rest)"
    using rendered_double [of pre g rest] rendered_single [of pre g rest] by blast
  have e: "CHR ''*'' \<notin> set pre \<and>
        \<not> (\<exists>h r. h \<noteq> [] \<and> CHR ''*'' \<notin> set h \<and>
              (t = h @ ''*'' @ r \<or> t = ''*'' @ h @ ''**'' @ r)) \<longrightarrow>
        rendered_text (renderText (pre @ ''*'' @ t))
          = pre @ ''*'' @ rendered_text (renderText t)"
    using rendered_lone_star [of pre t] by simp
  from c' b a' d e show ?thesis by blast
qed

theorem renderText_text_witness:
  "CHR ''*'' \<notin> set ''plain text''
   \<and> renderText ''plain text'' = Parts [Str ''plain text'']
   \<and> rendered_text (renderText ''plain text'') = ''plain text''
   \<and> rendered_text (renderText ''a **b** c'') = ''a b c''
   \<and> rendered_text (renderText ''x *y* z'') = ''x y z''
   \<and> rendered_text (renderText ''a*b'') = ''a*b''"
proof -
  have h: "CHR ''*'' \<notin> set ''plain text''" by simp
  have h1: "CHR ''*'' \<notin> set ''a '' \<and> ''b'' \<noteq> [] \<and> CHR ''*'' \<notin> set ''b''" by simp
  have h2: "CHR ''*'' \<notin> set ''x '' \<and> ''y'' \<noteq> [] \<and> CHR ''*'' \<notin> set ''y''" by simp
  have h3: "CHR ''*'' \<notin> set ''a'' \<and>
      \<not> (\<exists>h r. h \<noteq> [] \<and> CHR ''*'' \<notin> set h \<and>
            (''b'' = h @ ''*'' @ r \<or> ''b'' = ''*'' @ h @ ''**'' @ r))"
    by (auto simp: Cons_eq_append_conv)
  have r1: "CHR ''*'' \<notin> set '' c''" and r2: "CHR ''*'' \<notin> set '' z''"
    and r3: "CHR ''*'' \<notin> set ''b''" by simp_all
  note p = renderText_text [where input = "''plain text''"]
  note d = renderText_text [where input = "'' c''" and pre = "''a ''" and g = "''b''"
      and rest = "'' c''"]
  note s = renderText_text [where input = "'' z''" and pre = "''x ''" and g = "''y''"
      and rest = "'' z''"]
  note k = renderText_text [where input = "''b''" and pre = "''a''" and t = "''b''"]
  from p h have a: "renderText ''plain text'' = Parts [Str ''plain text'']
      \<and> rendered_text (renderText ''plain text'') = ''plain text''"
    by (simp add: rendered_text_def)
  from d h1 r1 have b: "rendered_text (renderText ''a **b** c'') = ''a b c''"
    by (simp add: rendered_text_def)
  from s h2 r2 have c: "rendered_text (renderText ''x *y* z'') = ''x y z''"
    by (simp add: rendered_text_def)
  from k h3 r3 have e: "rendered_text (renderText ''a*b'') = ''a*b''"
    by (simp add: rendered_text_def)
  from h a b c e show ?thesis by blast
qed

end
